theory Spec2Isabelle
  imports Main "HOL-Library.Sublist"
begin

section \<open>C strings and \<open>mystrlcat\<close> (server9.c)\<close>

text \<open>
  A \<open>char\<close> array is a list of bytes; a pointer into it is the index of the byte it
  points to.  Reading or writing outside the array is undefined in C: every function
  below returns \<open>None\<close> at that point, so \<open>Some\<close> means that all accesses stayed
  inside the arrays.
\<close>

definition NUL :: char where
  "NUL = CHR 0x00"

definition CR :: char where
  "CR = CHR 0x0D"

definition LF :: char where
  "LF = CHR 0x0A"

text \<open>\<open>size_t\<close> is 64 bits wide on the platform of the server.\<close>

definition SIZE_MAX1 :: nat where
  "SIZE_MAX1 = 2 ^ 64"

text \<open>\<open>strlen(s + i) + i\<close>: the index of the first NUL at or after \<open>i\<close>.\<close>

function strlen_from :: "char list \<Rightarrow> nat \<Rightarrow> nat option" where
  "strlen_from s i =
     (if length s \<le> i then None
      else if s ! i \<noteq> NUL then strlen_from s (i + 1)
      else Some i)"
  by pat_completeness auto
termination
  by (relation "measure (\<lambda>(s, i). length s - i)") auto

declare strlen_from.simps [simp del]

definition strlen :: "char list \<Rightarrow> nat option" where
  "strlen s = strlen_from s 0"

text \<open>
  First loop of \<open>mystrlcat\<close>:
  \<^verbatim>\<open>for (pd = dst, lest = size; *pd != '\0' && lest != 0; pd++, lest--) ;\<close>
  The byte at \<open>pd\<close> is read before \<open>lest\<close> is tested.
\<close>

function scan_dst :: "char list \<Rightarrow> nat \<Rightarrow> nat \<Rightarrow> nat option" where
  "scan_dst dst pd lest =
     (if length dst \<le> pd then None
      else if dst ! pd \<noteq> NUL \<and> lest \<noteq> 0 then scan_dst dst (pd + 1) (lest - 1)
      else Some pd)"
  by pat_completeness auto
termination
  by (relation "measure (\<lambda>(dst, pd, lest). lest)") auto

declare scan_dst.simps [simp del]

text \<open>
  Second loop:
  \<^verbatim>\<open>for (ps = src; *ps != '\0' && pd < pde; pd++, ps++) { *pd = *ps; }\<close>
  It returns the destination array and both pointers.
\<close>

function copy_src :: "char list \<Rightarrow> char list \<Rightarrow> nat \<Rightarrow> nat \<Rightarrow> nat
    \<Rightarrow> (char list \<times> nat \<times> nat) option" where
  "copy_src dst src pd ps pde =
     (if length src \<le> ps then None
      else if src ! ps \<noteq> NUL \<and> pd < pde then
        (if length dst \<le> pd then None
         else copy_src (dst[pd := src ! ps]) src (pd + 1) (ps + 1) pde)
      else Some (dst, pd, ps))"
  by pat_completeness auto
termination
  by (relation "measure (\<lambda>(dst, src, pd, ps, pde). pde - pd)") auto

declare copy_src.simps [simp del]

text \<open>Third loop: \<^verbatim>\<open>for (; pd <= pde; pd++) { *pd = '\0'; }\<close>\<close>

function fill_nul :: "char list \<Rightarrow> nat \<Rightarrow> nat \<Rightarrow> char list option" where
  "fill_nul dst pd pde =
     (if pd \<le> pde then
        (if length dst \<le> pd then None
         else fill_nul (dst[pd := NUL]) (pd + 1) pde)
      else Some dst)"
  by pat_completeness auto
termination
  by (relation "measure (\<lambda>(dst, pd, pde). pde + 1 - pd)") auto

declare fill_nul.simps [simp del]

text \<open>
  Fourth loop: \<^verbatim>\<open>while ( *ps++ ) ;\<close>  The pointer is advanced also past the NUL
  that ends the loop.
\<close>

function skip_src :: "char list \<Rightarrow> nat \<Rightarrow> nat option" where
  "skip_src src ps =
     (if length src \<le> ps then None
      else if src ! ps \<noteq> NUL then skip_src src (ps + 1)
      else Some (ps + 1))"
  by pat_completeness auto
termination
  by (relation "measure (\<lambda>(src, ps). length src - ps)") auto

declare skip_src.simps [simp del]

text \<open>
  \<open>mystrlcat dst src sz\<close> (\<open>sz\<close> is the parameter \<open>size\<close>) returns the destination array after the call and the
  returned \<open>size_t\<close>.  \<open>dst\<close> and \<open>src\<close> are the whole arrays the two pointers
  point into (at index 0).
\<close>

definition mystrlcat :: "char list \<Rightarrow> char list \<Rightarrow> nat \<Rightarrow> (char list \<times> nat) option" where
  "mystrlcat dst src sz =
     (case scan_dst dst 0 sz of
        None \<Rightarrow> None
      | Some pd \<Rightarrow>
          let dlen = pd in
          if sz - dlen = 0 then
            (case strlen src of
               None \<Rightarrow> None
             | Some n \<Rightarrow> Some (dst, (dlen + n) mod SIZE_MAX1))
          else
            let pde = sz - 1 in
            (case copy_src dst src pd 0 pde of
               None \<Rightarrow> None
             | Some (dst1, pd1, ps1) \<Rightarrow>
                 (case fill_nul dst1 pd1 pde of
                    None \<Rightarrow> None
                  | Some dst2 \<Rightarrow>
                      (case skip_src src ps1 of
                         None \<Rightarrow> None
                       | Some ps2 \<Rightarrow> Some (dst2, (dlen + (ps2 - 0 - 1)) mod SIZE_MAX1)))))"

text \<open>The string a \<open>char\<close> array holds: its bytes before the first NUL.\<close>

definition cstr :: "char list \<Rightarrow> char list" where
  "cstr s = takeWhile (\<lambda>c. c \<noteq> NUL) s"

text \<open>
  \<open>strpbrk(s, chars)\<close> of the C library: the first byte of the string \<open>s\<close> that is
  one of \<open>chars\<close>.  \<open>Some (Some p)\<close> is a pointer to index \<open>p\<close>, \<open>Some None\<close> is
  \<open>NULL\<close>, \<open>None\<close> is a read outside the array.
\<close>

function strpbrk_from :: "char list \<Rightarrow> char list \<Rightarrow> nat \<Rightarrow> nat option option" where
  "strpbrk_from s chars i =
     (if length s \<le> i then None
      else if s ! i = NUL then Some None
      else if s ! i \<in> set chars then Some (Some i)
      else strpbrk_from s chars (i + 1))"
  by pat_completeness auto
termination
  by (relation "measure (\<lambda>(s, chars, i). length s - i)") auto

declare strpbrk_from.simps [simp del]

definition strpbrk :: "char list \<Rightarrow> char list \<Rightarrow> nat option option" where
  "strpbrk s chars = strpbrk_from s chars 0"

section \<open>The ring queues of server9.c\<close>

definition MAXQUEUESZ :: nat where
  "MAXQUEUESZ = 4096"

definition MAXSENDER :: nat where
  "MAXSENDER = 2"

definition QUEUE_NEXT :: "nat \<Rightarrow> nat" where
  "QUEUE_NEXT i = (i + 1) mod MAXQUEUESZ"

text \<open>\<open>sizeof(buf)\<close> for the member \<open>char buf[512]\<close> of \<open>struct queue_data\<close>.\<close>

definition BUFSZ :: nat where
  "BUFSZ = 512"

definition MAX_CHILD :: int where
  "MAX_CHILD = 20"

text \<open>
  \<open>struct queue_data\<close>.  A descriptor is a non-negative \<open>int\<close>, here a \<open>nat\<close>; the
  failure value \<open>-1\<close> of \<open>accept\<close> is a case of its own below.
\<close>

record queue_data =
  acc :: nat
  buf :: "char list"
  len :: int

text \<open>
  \<open>struct queue\<close> without its mutex and condition variable.  The member \<open>last\<close> is
  called \<open>last_ix\<close>.
\<close>

record queue =
  front :: nat
  last_ix :: nat
  data :: "queue_data list"

text \<open>The bytes of an entry that \<open>recv\<close> has stored: the first \<open>len\<close> bytes of \<open>buf\<close>.\<close>

definition payload :: "queue_data \<Rightarrow> char list" where
  "payload d = take (nat (len d)) (buf d)"

text \<open>
  What \<open>recv(fd, buf, sizeof(buf), 0)\<close> returned: \<open>RecvErr eintr\<close> is \<open>-1\<close>, with
  \<open>eintr\<close> telling whether \<open>errno\<close> is \<open>EINTR\<close>; \<open>RecvOk bs\<close> is a successful call
  with the bytes \<open>bs\<close> waiting in the socket, of which at most \<open>sizeof(buf)\<close> are
  stored at the start of \<open>buf\<close> and counted in the result (no byte: the peer has closed).
\<close>

datatype recv_result = RecvErr bool | RecvOk "char list"

text \<open>
  Lines 272 to 278 of \<open>accept_loop\<close>: the descriptor and the result of \<open>recv\<close> are
  stored in the slot \<open>last\<close> of the queue, before \<open>last\<close> moves.
\<close>

definition recv_slot :: "nat \<Rightarrow> recv_result \<Rightarrow> queue_data \<Rightarrow> queue_data" where
  "recv_slot fd r d =
     (case r of
        RecvErr eintr \<Rightarrow> d\<lparr>acc := fd, len := - 1\<rparr>
      | RecvOk bs \<Rightarrow>
          let n = min (length bs) BUFSZ
          in d\<lparr>acc := fd, buf := take n bs @ drop n (buf d), len := int n\<rparr>)"

definition recv_queue :: "nat \<Rightarrow> recv_result \<Rightarrow> queue \<Rightarrow> queue" where
  "recv_queue fd r q =
     q\<lparr>data := (data q)[last_ix q := recv_slot fd r (data q ! last_ix q)]\<rparr>"

text \<open>Lines 308 to 313: under the mutex, \<open>last\<close> is advanced.\<close>

definition publish :: "queue \<Rightarrow> queue" where
  "publish q = q\<lparr>last_ix := QUEUE_NEXT (last_ix q)\<rparr>"

text \<open>The producer's side for a read that returned data: store, then publish.\<close>

definition enqueue :: "nat \<Rightarrow> char list \<Rightarrow> queue \<Rightarrow> queue" where
  "enqueue fd bs q = publish (recv_queue fd (RecvOk bs) q)"

text \<open>
  Lines 387 to 400 of \<open>send_thread\<close>: under the mutex, the index of the front slot is
  taken and \<open>front\<close> is advanced; \<open>None\<close> when the queue is empty (the thread waits).
\<close>

definition dequeue :: "queue \<Rightarrow> (nat \<times> queue) option" where
  "dequeue q =
     (if last_ix q \<noteq> front q then Some (front q, q\<lparr>front := QUEUE_NEXT (front q)\<rparr>)
      else None)"

section \<open>The send side: one entry of \<open>send_thread\<close>\<close>

text \<open>The string literal \<open>":OK\r\n"\<close> with its terminating NUL.\<close>

definition OK_SUFFIX :: "char list" where
  "OK_SUFFIX = [CHR '':'', CHR ''O'', CHR ''K'', CR, LF, NUL]"

text \<open>
  Lines 405 to 423 of \<open>send_thread\<close> on the entry \<open>d\<close> that was taken from the queue:
  the NUL stored at \<open>buf[len]\<close>, the first CR or LF replaced by NUL, \<open>mystrlcat\<close> and
  \<open>strlen\<close>.  The result is the string that is logged and the entry as \<open>send\<close> sees it.
  \<open>None\<close>: an access outside \<open>buf\<close>.
\<close>

definition respond :: "queue_data \<Rightarrow> (char list \<times> queue_data) option" where
  "respond d =
     (if len d < 0 \<or> length (buf d) \<le> nat (len d) then None
      else
        let b1 = (buf d)[nat (len d) := NUL] in
        (case strpbrk b1 [CR, LF] of
           None \<Rightarrow> None
         | Some ptr \<Rightarrow>
             let b2 = (case ptr of None \<Rightarrow> b1 | Some p \<Rightarrow> b1[p := NUL]) in
             (case mystrlcat b2 OK_SUFFIX BUFSZ of
                None \<Rightarrow> None
              | Some (b3, r) \<Rightarrow>
                  (case strlen b3 of
                     None \<Rightarrow> None
                   | Some n \<Rightarrow> Some (cstr b2, d\<lparr>buf := b3, len := int n\<rparr>)))))"

text \<open>The bytes that \<open>send(acc, buf, len, 0)\<close> is asked to transmit.\<close>

definition send_bytes :: "queue_data \<Rightarrow> char list" where
  "send_bytes d = take (nat (len d)) (buf d)"

section \<open>The server: \<open>accept_loop\<close> and the send threads\<close>

datatype log =
    Perror string
  | ChildCount int
  | LogAccept
  | ConnFull
  | ChildEOF nat
  | ChildMsg nat "char list"

text \<open>
  The state that \<open>accept_loop\<close> and the \<open>send_thread\<close>s share or keep:
  \<^item> \<open>g_queue\<close>: the global array of \<open>MAXSENDER\<close> queues;
  \<^item> \<open>cur\<close>: for each send thread, its local \<open>i\<close> between the moment it has taken an
    index from its queue and the end of that iteration (\<open>None\<close>: at the top of its loop);
  \<^item> \<open>count\<close>: the local of \<open>accept_loop\<close>;
  \<^item> \<open>epoll\<close>: the connection descriptors registered in \<open>epollfd\<close>;
  \<^item> \<open>epollfd_closed\<close>: \<open>close(epollfd)\<close> has been called; the epoll instance and its
    registrations are gone;
  \<^item> \<open>closed\<close>: the connection descriptors passed to \<open>close\<close>, oldest first;
  \<^item> \<open>running\<close>: \<open>accept_loop\<close> has not returned;
  \<^item> \<open>recvd\<close>: a history of the reads that returned data, descriptor and bytes stored
    (not a variable of the program);
  \<^item> \<open>sends\<close>: the calls of \<open>send\<close>: descriptor, bytes, and whether the result was not \<open>-1\<close>;
  \<^item> \<open>logs\<close>: what was written to \<open>stderr\<close>.
\<close>

record server =
  g_queue :: "queue list"
  cur :: "nat option list"
  count :: int
  epoll :: "nat set"
  epollfd_closed :: bool
  closed :: "nat list"
  running :: bool
  recvd :: "(nat \<times> char list) list"
  sends :: "(nat \<times> char list \<times> bool) list"
  logs :: "log list"

text \<open>
  The results of the system calls made while one ready descriptor is handled:
  \<open>accept\<close> (\<open>None\<close> is \<open>-1\<close>), whether \<open>errno\<close> is \<open>EINTR\<close> after a failed \<open>accept\<close>,
  whether \<open>epoll_ctl\<close> is let to succeed, and \<open>recv\<close>.
\<close>

record syscalls =
  accept_ret :: "nat option"
  accept_eintr :: bool
  epoll_ctl_ok :: bool
  recv_ret :: recv_result

text \<open>
  \<open>epoll_ctl\<close> with \<open>EPOLL_CTL_ADD\<close> fails on a descriptor that is registered already
  (\<open>EEXIST\<close>; the listening socket \<open>soc\<close> is registered from the start), with
  \<open>EPOLL_CTL_DEL\<close> on one that is not (\<open>ENOENT\<close>), and otherwise when the system says
  so.  \<open>None\<close> is the result \<open>-1\<close>.
\<close>

definition epoll_ctl_add :: "nat \<Rightarrow> nat \<Rightarrow> bool \<Rightarrow> nat set \<Rightarrow> nat set option" where
  "epoll_ctl_add soc fd ok E = (if ok \<and> fd \<noteq> soc \<and> fd \<notin> E then Some (insert fd E) else None)"

definition epoll_ctl_del :: "nat \<Rightarrow> bool \<Rightarrow> nat set \<Rightarrow> nat set option" where
  "epoll_ctl_del fd ok E = (if ok \<and> fd \<in> E then Some (E - {fd}) else None)"

definition add_log :: "log \<Rightarrow> server \<Rightarrow> server" where
  "add_log l s = s\<lparr>logs := logs s @ [l]\<rparr>"

text \<open>
  \<open>close(epollfd)\<close>: the descriptor is the only one of the epoll instance, so the
  instance is destroyed and nothing is registered any more.
\<close>

definition close_epollfd :: "server \<Rightarrow> server" where
  "close_epollfd s = s\<lparr>epoll := {}, epollfd_closed := True\<rparr>"

text \<open>Lines 222 to 258: the ready descriptor is the listening socket.\<close>

definition on_accept :: "nat \<Rightarrow> syscalls \<Rightarrow> server \<Rightarrow> server" where
  "on_accept soc sc s =
     (case accept_ret sc of
        None \<Rightarrow> (if \<not> accept_eintr sc then add_log (Perror ''accept'') s else s)
      | Some a \<Rightarrow>
          let s1 = add_log LogAccept s in
          if count s1 + 1 \<ge> MAX_CHILD then
            (add_log ConnFull s1)\<lparr>closed := closed s1 @ [a]\<rparr>
          else
            (case epoll_ctl_add soc a (epoll_ctl_ok sc) (epoll s1) of
               None \<Rightarrow>
                 (close_epollfd ((add_log (Perror ''epoll_ctl'') s1)\<lparr>closed := closed s1 @ [a]\<rparr>))
                   \<lparr>running := False\<rparr>
             | Some E \<Rightarrow> s1\<lparr>epoll := E, count := count s1 + 1\<rparr>))"

text \<open>Lines 260 to 316: the ready descriptor \<open>fd\<close> is a connection.\<close>

definition on_readable :: "nat \<Rightarrow> syscalls \<Rightarrow> server \<Rightarrow> server" where
  "on_readable fd sc s =
     (let qi = fd mod MAXSENDER;
          q1 = recv_queue fd (recv_ret sc) (g_queue s ! qi);
          s1 = s\<lparr>g_queue := (g_queue s)[qi := q1]\<rparr>;
          n = len (data q1 ! last_ix q1)
      in
        if n = - 1 \<or> n = 0 then
          (let s2 = (if n = - 1 then add_log (Perror ''recv'') s1 else s1);
               s3 = add_log (ChildEOF fd) s2
           in case epoll_ctl_del fd (epoll_ctl_ok sc) (epoll s3) of
                None \<Rightarrow> (close_epollfd (add_log (Perror ''epoll_ctl'') s3))\<lparr>running := False\<rparr>
              | Some E \<Rightarrow> s3\<lparr>epoll := E, closed := closed s3 @ [fd], count := count s3 - 1\<rparr>)
        else
          s1\<lparr>g_queue := (g_queue s1)[qi := publish q1],
             recvd := recvd s1 @ [(fd, payload (data q1 ! last_ix q1))]\<rparr>)"

definition on_ready :: "nat \<Rightarrow> nat \<Rightarrow> syscalls \<Rightarrow> server \<Rightarrow> server" where
  "on_ready soc fd sc s = (if fd = soc then on_accept soc sc s else on_readable fd sc s)"

text \<open>
  Lines 217 to 317, the loop over the ready descriptors that \<open>epoll_wait\<close> returned;
  it ends early where the body returns from \<open>accept_loop\<close>.
\<close>

fun for_ready :: "nat \<Rightarrow> (nat \<times> syscalls) list \<Rightarrow> server \<Rightarrow> server" where
  "for_ready soc [] s = s"
| "for_ready soc ((fd, sc) # evs) s =
     (let s1 = on_ready soc fd sc s in if running s1 then for_ready soc evs s1 else s1)"

text \<open>The result of \<open>epoll_wait\<close>: \<open>-1\<close>, \<open>0\<close>, or the ready descriptors.\<close>

datatype wait_result = WaitError | WaitTimeout | WaitReady "(nat \<times> syscalls) list"

text \<open>Lines 197 to 320: one iteration of the \<open>for (;;)\<close> of \<open>accept_loop\<close>.\<close>

definition accept_loop_iter :: "nat \<Rightarrow> wait_result \<Rightarrow> server \<Rightarrow> server" where
  "accept_loop_iter soc w s =
     (if \<not> running s then s
      else
        let s0 = add_log (ChildCount (count s)) s in
        (case w of
           WaitError \<Rightarrow> add_log (Perror ''epoll_wait'') s0
         | WaitTimeout \<Rightarrow> s0
         | WaitReady evs \<Rightarrow> for_ready soc evs s0))"

text \<open>
  Lines 385 to 400 of \<open>send_thread\<close> for the thread of queue \<open>qi\<close>: the part of an
  iteration that runs under the mutex.  With an empty queue the thread waits and the
  state stays as it is.
\<close>

definition send_thread_pop :: "nat \<Rightarrow> server \<Rightarrow> server" where
  "send_thread_pop qi s =
     (case cur s ! qi of
        Some i \<Rightarrow> s
      | None \<Rightarrow>
          (case dequeue (g_queue s ! qi) of
             None \<Rightarrow> s
           | Some (i, q1) \<Rightarrow> s\<lparr>g_queue := (g_queue s)[qi := q1], cur := (cur s)[qi := Some i]\<rparr>))"

text \<open>
  Lines 402 to 432: the rest of the iteration, outside the mutex, on the slot \<open>i\<close>.
  \<open>send_ok\<close> tells whether \<open>send\<close> returned something else than \<open>-1\<close>.
\<close>

definition send_thread_send :: "nat \<Rightarrow> bool \<Rightarrow> server \<Rightarrow> server option" where
  "send_thread_send qi send_ok s =
     (case cur s ! qi of
        None \<Rightarrow> Some s
      | Some i \<Rightarrow>
          let q = g_queue s ! qi in
          (case respond (data q ! i) of
             None \<Rightarrow> None
           | Some (line, d1) \<Rightarrow>
               let s1 = (add_log (ChildMsg (acc d1) line) s)
                          \<lparr>g_queue := (g_queue s)[qi := q\<lparr>data := (data q)[i := d1]\<rparr>],
                           cur := (cur s)[qi := None],
                           sends := sends s @ [(acc d1, send_bytes d1, send_ok)]\<rparr>
               in Some (if send_ok then s1 else add_log (Perror ''send'') s1)))"

text \<open>
  The threads interleave: a step of the system is one iteration of \<open>accept_loop\<close>, the
  locked part of an iteration of a send thread, or its unlocked part.
\<close>

datatype event = MainIter wait_result | WorkerPop nat | WorkerSend nat bool

fun step :: "nat \<Rightarrow> event \<Rightarrow> server \<Rightarrow> server option" where
  "step soc (MainIter w) s = Some (accept_loop_iter soc w s)"
| "step soc (WorkerPop qi) s = Some (if qi < MAXSENDER then send_thread_pop qi s else s)"
| "step soc (WorkerSend qi send_ok) s =
     (if qi < MAXSENDER then send_thread_send qi send_ok s else Some s)"

fun run :: "nat \<Rightarrow> event list \<Rightarrow> server \<Rightarrow> server option" where
  "run soc [] s = Some s"
| "run soc (e # es) s = (case step soc e s of None \<Rightarrow> None | Some s1 \<Rightarrow> run soc es s1)"

text \<open>
  The state in which the loop of \<open>accept_loop\<close> starts, lines 181 to 195 having
  succeeded: the epoll instance exists and holds the listening socket only, the global
  queues are zero-initialised, the send threads are at the top of their loops,
  \<open>count = 0\<close>.
\<close>

definition zero_data :: queue_data where
  "zero_data = \<lparr>acc = 0, buf = replicate BUFSZ NUL, len = 0\<rparr>"

definition zero_queue :: queue where
  "zero_queue = \<lparr>front = 0, last_ix = 0, data = replicate MAXQUEUESZ zero_data\<rparr>"

definition init :: server where
  "init = \<lparr>g_queue = replicate MAXSENDER zero_queue, cur = replicate MAXSENDER None,
            count = 0, epoll = {}, epollfd_closed = False, closed = [], running = True,
            recvd = [], sends = [], logs = []\<rparr>"

section \<open>Notions used in the statements\<close>

text \<open>
  What \<open>send_thread\<close> keeps of the bytes it was given: the bytes before the first NUL,
  CR or LF.
\<close>

definition strip :: "char list \<Rightarrow> char list" where
  "strip p = takeWhile (\<lambda>c. c \<noteq> NUL \<and> c \<notin> set [CR, LF]) p"

text \<open>The reply to the bytes \<open>p\<close>: at most \<open>sizeof(buf) - 1\<close> bytes.\<close>

definition reply :: "char list \<Rightarrow> char list" where
  "reply p = take (BUFSZ - 1) (strip p @ cstr OK_SUFFIX)"

text \<open>
  The counter of \<open>accept_loop\<close> counts the registered connections, as long as the epoll
  instance exists, and stays below \<open>MAX_CHILD\<close>.
\<close>

definition count_inv :: "server \<Rightarrow> bool" where
  "count_inv s \<longleftrightarrow>
     finite (epoll s) \<and> count s < MAX_CHILD
     \<and> (if epollfd_closed s then epoll s = {} \<and> \<not> running s
         else int (card (epoll s)) = count s)"

text \<open>System call results for a connection \<open>a\<close> that \<open>accept\<close> returns and that registers.\<close>

definition conn :: "nat \<Rightarrow> syscalls" where
  "conn a = \<lparr>accept_ret = Some a, accept_eintr = False, epoll_ctl_ok = True,
              recv_ret = RecvOk []\<rparr>"

text \<open>
  Well-formed queues and servers: the arrays have their declared sizes and the two
  indices of a queue are inside its array.
\<close>

definition queue_ok :: "queue \<Rightarrow> bool" where
  "queue_ok q \<longleftrightarrow>
     length (data q) = MAXQUEUESZ \<and> front q < MAXQUEUESZ \<and> last_ix q < MAXQUEUESZ
     \<and> (\<forall>d \<in> set (data q). length (buf d) = BUFSZ)"

definition server_ok :: "server \<Rightarrow> bool" where
  "server_ok s \<longleftrightarrow>
     length (g_queue s) = MAXSENDER \<and> length (cur s) = MAXSENDER
     \<and> (\<forall>q \<in> set (g_queue s). queue_ok q)"

text \<open>System call results for a \<open>recv\<close> with the bytes \<open>bs\<close> waiting.\<close>

definition rd :: "char list \<Rightarrow> syscalls" where
  "rd bs = \<lparr>accept_ret = None, accept_eintr = False, epoll_ctl_ok = True,
             recv_ret = RecvOk bs\<rparr>"

text \<open>System call results for a \<open>recv\<close> that fails with \<open>EINTR\<close>.\<close>

definition rd_eintr :: syscalls where
  "rd_eintr = \<lparr>accept_ret = None, accept_eintr = False, epoll_ctl_ok = True,
               recv_ret = RecvErr True\<rparr>"

text \<open>System call results for a connection \<open>a\<close> whose registration fails.\<close>

definition conn_fail :: "nat \<Rightarrow> syscalls" where
  "conn_fail a = \<lparr>accept_ret = Some a, accept_eintr = False, epoll_ctl_ok = False,
                   recv_ret = RecvOk []\<rparr>"

definition hello :: "char list" where
  "hello = ''hello'' @ [CR, LF]"

definition hello_ok :: "char list" where
  "hello_ok = ''hello:OK'' @ [CR, LF]"

text \<open>Concrete states and entries for the examples.\<close>

definition hello_data :: queue_data where
  "hello_data = \<lparr>acc = 4, buf = ''hello'' @ [CR, LF] @ replicate 505 NUL, len = 7\<rparr>"

text \<open>The connections \<open>as\<close> arrive one after the other, each in a round of its own.\<close>

fun accept_each :: "nat list \<Rightarrow> server \<Rightarrow> server" where
  "accept_each [] s = s"
| "accept_each (a # as) s = accept_each as (accept_loop_iter 3 (WaitReady [(3, conn a)]) s)"

definition accepted :: server where
  "accepted = accept_loop_iter 3 (WaitReady [(3, conn 4)]) init"


section \<open>The queue as a list of pending entries\<close>

text \<open>The number of slots from \<open>front\<close> up to \<open>last\<close>, going round the array.\<close>

definition occupancy :: "queue \<Rightarrow> nat" where
  "occupancy q = (last_ix q + MAXQUEUESZ - front q) mod MAXQUEUESZ"

text \<open>The entries in these slots, oldest first: what the send thread will take.\<close>

definition pending :: "queue \<Rightarrow> queue_data list" where
  "pending q = map (\<lambda>k. data q ! ((front q + k) mod MAXQUEUESZ)) [0..<occupancy q]"

text \<open>What is observed of an entry: the descriptor and the bytes received.\<close>

definition entry :: "queue_data \<Rightarrow> nat \<times> char list" where
  "entry d = (acc d, payload d)"

text \<open>
  Lines 272 to 314 on the queue alone: the result of \<open>recv\<close> is stored in slot \<open>last\<close>,
  whatever it is, and \<open>last\<close> is advanced when the result is neither 0 nor \<open>-1\<close>.
\<close>

definition recv_step :: "nat \<Rightarrow> recv_result \<Rightarrow> queue \<Rightarrow> queue" where
  "recv_step fd r q =
     (let q1 = recv_queue fd r q; n = len (data q1 ! last_ix q1)
      in if n = - 1 \<or> n = 0 then q1 else publish q1)"

text \<open>
  Runs of one queue and its send thread.  \<open>Recv fd r\<close>: \<open>accept_loop\<close> handles a read on
  \<open>fd\<close> with result \<open>r\<close>.  \<open>Pop\<close>: the part of an iteration of \<open>send_thread\<close> under the
  mutex; with an entry in hand already, or with a queue that looks empty, nothing
  happens.  \<open>Work\<close>: the rest of the iteration, outside the mutex, on the slot in hand;
  it reads the entry there and then, and writes the reply into it.

  \<open>ring_run ops q c\<close> gives the entries (descriptor and bytes) that the send thread
  reads in its iterations, from the queue \<open>q\<close> with the index \<open>c\<close> in hand; \<open>None\<close>: an
  access outside \<open>buf\<close>.
\<close>

datatype qop = Recv nat recv_result | Pop | Work

fun ring_run :: "qop list \<Rightarrow> queue \<Rightarrow> nat option \<Rightarrow> (nat \<times> char list) list option" where
  "ring_run [] q c = Some []"
| "ring_run (Recv fd r # ops) q c = ring_run ops (recv_step fd r q) c"
| "ring_run (Pop # ops) q c =
     (case c of
        Some i \<Rightarrow> ring_run ops q c
      | None \<Rightarrow>
          (case dequeue q of
             None \<Rightarrow> ring_run ops q None
           | Some (i, q1) \<Rightarrow> ring_run ops q1 (Some i)))"
| "ring_run (Work # ops) q c =
     (case c of
        None \<Rightarrow> ring_run ops q None
      | Some i \<Rightarrow>
          (case respond (data q ! i) of
             None \<Rightarrow> None
           | Some (line, d1) \<Rightarrow>
               map_option (\<lambda>es. entry (data q ! i) # es)
                 (ring_run ops (q\<lparr>data := (data q)[i := d1]\<rparr>) None)))"

text \<open>
  The queue the specification asks for: a first-in first-out list that loses nothing,
  and the entry in the hand of the consumer.  A read that returns data appends its
  entry; any other read changes nothing.
\<close>

definition received :: "nat \<Rightarrow> recv_result \<Rightarrow> (nat \<times> char list) list" where
  "received fd r =
     (case r of RecvErr e \<Rightarrow> [] | RecvOk bs \<Rightarrow> if bs = [] then [] else [(fd, take BUFSZ bs)])"

fun fifo_run :: "qop list \<Rightarrow> (nat \<times> char list) list \<Rightarrow> (nat \<times> char list) option
    \<Rightarrow> (nat \<times> char list) list" where
  "fifo_run [] xs h = []"
| "fifo_run (Recv fd r # ops) xs h = fifo_run ops (xs @ received fd r) h"
| "fifo_run (Pop # ops) xs (Some x) = fifo_run ops xs (Some x)"
| "fifo_run (Pop # ops) [] None = fifo_run ops [] None"
| "fifo_run (Pop # ops) (x # xs) None = fifo_run ops xs (Some x)"
| "fifo_run (Work # ops) xs None = fifo_run ops xs None"
| "fifo_run (Work # ops) xs (Some x) = x # fifo_run ops xs None"

text \<open>
  \<open>fits ops n h\<close>: starting with \<open>n\<close> entries pending, and one more in hand when \<open>h\<close>
  holds, every read of \<open>ops\<close> that returns data returns fewer than \<open>sizeof(buf)\<close> bytes
  and finds fewer than \<open>MAXQUEUESZ - 1\<close> entries pending or in hand.
\<close>

fun fits :: "qop list \<Rightarrow> nat \<Rightarrow> bool \<Rightarrow> bool" where
  "fits [] n h = True"
| "fits (Recv fd r # ops) n h =
     (if received fd r = [] then fits ops n h
      else (case r of
              RecvErr e \<Rightarrow> False
            | RecvOk bs \<Rightarrow>
                n + (if h then 1 else 0) < MAXQUEUESZ - 1 \<and> length bs < BUFSZ
                \<and> fits ops (n + 1) h))"
| "fits (Pop # ops) n h = (if \<not> h \<and> 0 < n then fits ops (n - 1) True else fits ops n h)"
| "fits (Work # ops) n h = fits ops n False"

section \<open>Requests and responses of a connection\<close>

text \<open>
  The invariant of a queue and its send thread: the slot the thread works on is the one
  before \<open>front\<close>, and it is not the slot \<open>last\<close> that the producer writes next.
\<close>

definition ring_inv :: "queue \<Rightarrow> nat option \<Rightarrow> bool" where
  "ring_inv q c \<longleftrightarrow>
     (case c of
        None \<Rightarrow> True
      | Some i \<Rightarrow> i = (front q + MAXQUEUESZ - 1) mod MAXQUEUESZ \<and> occupancy q < MAXQUEUESZ - 1)"

definition in_hand :: "queue \<Rightarrow> nat option \<Rightarrow> queue_data list" where
  "in_hand q c = (case c of None \<Rightarrow> [] | Some i \<Rightarrow> [data q ! i])"

text \<open>The entries pending and in hand hold fewer than \<open>sizeof(buf)\<close> bytes.\<close>

definition sized :: "queue \<Rightarrow> nat option \<Rightarrow> bool" where
  "sized q c \<longleftrightarrow> (\<forall>d \<in> set (in_hand q c @ pending q). 0 \<le> len d \<and> nat (len d) < BUFSZ)"

















section \<open>Properties of the C strings\<close>

lemma cstr_length_less: "NUL \<in> set s \<Longrightarrow> length (cstr s) < length s"
  unfolding cstr_def by (induction s) auto

lemma cstr_nth_NUL: "NUL \<in> set s \<Longrightarrow> s ! length (cstr s) = NUL"
  unfolding cstr_def by (induction s) auto

lemma cstr_nth_neq: "j < length (cstr s) \<Longrightarrow> s ! j \<noteq> NUL"
  unfolding cstr_def
proof (induction s arbitrary: j)
  case Nil then show ?case by simp
next
  case (Cons a s) then show ?case by (cases j) (auto split: if_splits)
qed

lemma cstr_eq_take: "cstr s = take (length (cstr s)) s"
  unfolding cstr_def by (induction s) auto

lemma cstr_first_NUL:
  "k < length s \<Longrightarrow> s ! k = NUL \<Longrightarrow> (\<forall>j<k. s ! j \<noteq> NUL) \<Longrightarrow> length (cstr s) = k"
  unfolding cstr_def
proof (induction s arbitrary: k)
  case Nil then show ?case by simp
next
  case (Cons a s)
  show ?case
  proof (cases k)
    case 0 with Cons.prems show ?thesis by simp
  next
    case (Suc k')
    with Cons.prems have "a \<noteq> NUL" by auto
    moreover have "length (takeWhile (\<lambda>c. c \<noteq> NUL) s) = k'"
      using Cons.prems Suc by (intro Cons.IH) auto
    ultimately show ?thesis using Suc by simp
  qed
qed

lemma strlen_from_cstr:
  "NUL \<in> set s \<Longrightarrow> i \<le> length (cstr s) \<Longrightarrow> strlen_from s i = Some (length (cstr s))"
proof (induction s i rule: strlen_from.induct)
  case (1 s i)
  have lt: "length (cstr s) < length s" using "1.prems"(1) by (rule cstr_length_less)
  show ?case
  proof (cases "s ! i = NUL")
    case True
    then have "\<not> i < length (cstr s)" using cstr_nth_neq by blast
    with "1.prems"(2) have "i = length (cstr s)" by simp
    with True lt show ?thesis by (subst strlen_from.simps) simp
  next
    case False
    then have "i \<noteq> length (cstr s)" using cstr_nth_NUL [OF "1.prems"(1)] by auto
    with "1.prems"(2) have le: "i + 1 \<le> length (cstr s)" by simp
    with lt have "\<not> length s \<le> i" by simp
    with False "1.IH" "1.prems"(1) le show ?thesis by (subst strlen_from.simps) simp
  qed
qed

lemma strlen_cstr: "NUL \<in> set s \<Longrightarrow> strlen s = Some (length (cstr s))"
  by (simp add: strlen_def strlen_from_cstr)

lemma skip_src_cstr:
  "NUL \<in> set s \<Longrightarrow> i \<le> length (cstr s) \<Longrightarrow> skip_src s i = Some (length (cstr s) + 1)"
proof (induction s i rule: skip_src.induct)
  case (1 s i)
  have lt: "length (cstr s) < length s" using "1.prems"(1) by (rule cstr_length_less)
  show ?case
  proof (cases "s ! i = NUL")
    case True
    then have "\<not> i < length (cstr s)" using cstr_nth_neq by blast
    with "1.prems"(2) have "i = length (cstr s)" by simp
    with True lt show ?thesis by (subst skip_src.simps) simp
  next
    case False
    then have "i \<noteq> length (cstr s)" using cstr_nth_NUL [OF "1.prems"(1)] by auto
    with "1.prems"(2) have le: "i + 1 \<le> length (cstr s)" by simp
    with lt have "\<not> length s \<le> i" by simp
    with False "1.IH" "1.prems"(1) le show ?thesis by (subst skip_src.simps) simp
  qed
qed

lemma scan_dst_cstr:
  "NUL \<in> set dst \<Longrightarrow> pd \<le> length (cstr dst) \<Longrightarrow>
   scan_dst dst pd lest = Some (min (length (cstr dst)) (pd + lest))"
proof (induction dst pd lest rule: scan_dst.induct)
  case (1 dst pd lest)
  have lt: "length (cstr dst) < length dst" using "1.prems"(1) by (rule cstr_length_less)
  then have in_range: "\<not> length dst \<le> pd" using "1.prems"(2) by simp
  show ?case
  proof (cases "dst ! pd \<noteq> NUL \<and> lest \<noteq> 0")
    case True
    then have "pd \<noteq> length (cstr dst)" using cstr_nth_NUL [OF "1.prems"(1)] by auto
    with "1.prems"(2) have le: "pd + 1 \<le> length (cstr dst)" by simp
    have "scan_dst dst (pd + 1) (lest - 1) = Some (min (length (cstr dst)) (pd + 1 + (lest - 1)))"
      using in_range True "1.prems"(1) le by (intro "1.IH") auto
    with True in_range show ?thesis by (subst scan_dst.simps) simp
  next
    case False
    then consider "dst ! pd = NUL" | "lest = 0" by blast
    then show ?thesis
    proof cases
      case 1
      then have "\<not> pd < length (cstr dst)" using cstr_nth_neq by blast
      with "1.prems"(2) have "pd = length (cstr dst)" by simp
      with 1 in_range show ?thesis by (subst scan_dst.simps) simp
    next
      case 2
      with in_range "1.prems"(2) show ?thesis by (subst scan_dst.simps) simp
    qed
  qed
qed

lemma fill_nul_eq:
  "pd \<le> pde + 1 \<Longrightarrow> pde < length dst \<Longrightarrow>
   fill_nul dst pd pde = Some (take pd dst @ replicate (pde + 1 - pd) NUL @ drop (pde + 1) dst)"
proof (induction dst pd pde rule: fill_nul.induct)
  case (1 dst pd pde)
  show ?case
  proof (cases "pd \<le> pde")
    case True
    with "1.prems" have r: "\<not> length dst \<le> pd" by simp
    have "fill_nul (dst[pd := NUL]) (pd + 1) pde =
        Some (take (pd + 1) (dst[pd := NUL]) @ replicate (pde + 1 - (pd + 1)) NUL @ drop (pde + 1) (dst[pd := NUL]))"
      using True r "1.prems" by (intro "1.IH") auto
    moreover have "take (pd + 1) (dst[pd := NUL]) = take pd dst @ [NUL]"
      using r by (simp add: take_Suc_conv_app_nth)
    moreover have "drop (pde + 1) (dst[pd := NUL]) = drop (pde + 1) dst"
      using True by simp
    moreover have "replicate (pde + 1 - pd) NUL = NUL # replicate (pde + 1 - (pd + 1)) NUL"
      using True by (simp add: Suc_diff_le flip: replicate_Suc)
    ultimately show ?thesis using True r by (subst fill_nul.simps) simp
  next
    case False
    with "1.prems" have "pd = pde + 1" by simp
    then show ?thesis by (subst fill_nul.simps) simp
  qed
qed

lemma copy_src_eq:
  "NUL \<in> set src \<Longrightarrow> ps \<le> length (cstr src) \<Longrightarrow> pd \<le> pde \<Longrightarrow> pde < length dst \<Longrightarrow>
   copy_src dst src pd ps pde =
     Some (take pd dst @ take (min (length (cstr src) - ps) (pde - pd)) (drop ps src)
             @ drop (pd + min (length (cstr src) - ps) (pde - pd)) dst,
           pd + min (length (cstr src) - ps) (pde - pd),
           ps + min (length (cstr src) - ps) (pde - pd))"
proof (induction dst src pd ps pde rule: copy_src.induct)
  case (1 dst src pd ps pde)
  have lt: "length (cstr src) < length src" using "1.prems"(1) by (rule cstr_length_less)
  then have in_range: "\<not> length src \<le> ps" using "1.prems"(2) by simp
  show ?case
  proof (cases "src ! ps \<noteq> NUL \<and> pd < pde")
    case True
    then have "ps \<noteq> length (cstr src)" using cstr_nth_NUL [OF "1.prems"(1)] by auto
    with "1.prems"(2) have le: "ps + 1 \<le> length (cstr src)" by simp
    have r: "\<not> length dst \<le> pd" using True "1.prems" by simp
    let ?c = "min (length (cstr src) - Suc ps) (pde - Suc pd)"
    let ?d = "dst[pd := src ! ps]"
    have c: "min (length (cstr src) - ps) (pde - pd) = Suc ?c"
      using le True by linarith
    have IH: "copy_src ?d src (Suc pd) (Suc ps) pde =
       Some (take (Suc pd) ?d @ take ?c (drop (Suc ps) src) @ drop (Suc pd + ?c) ?d,
             Suc pd + ?c, Suc ps + ?c)"
      using "1.IH" [OF in_range True r "1.prems"(1)] le True "1.prems"(4) by simp
    have t: "take (Suc pd) ?d = take pd dst @ [src ! ps]"
      using r by (simp add: take_Suc_conv_app_nth)
    have d: "drop (Suc pd + ?c) ?d = drop (pd + Suc ?c) dst" by simp
    have s: "take (Suc ?c) (drop ps src) = src ! ps # take ?c (drop (Suc ps) src)"
      using in_range by (simp flip: Cons_nth_drop_Suc)
    have step: "copy_src dst src pd ps pde = copy_src ?d src (Suc pd) (Suc ps) pde"
      using True in_range r by (subst copy_src.simps) simp
    show ?thesis
      unfolding step IH c t d s by simp
  next
    case False
    then consider "src ! ps = NUL" | "\<not> pd < pde" by blast
    then show ?thesis
    proof cases
      case 1
      then have "\<not> ps < length (cstr src)" using cstr_nth_neq by blast
      with "1.prems"(2) have "ps = length (cstr src)" by simp
      with 1 in_range show ?thesis by (subst copy_src.simps) simp
    next
      case 2
      with "1.prems" have "pd = pde" by simp
      with in_range show ?thesis by (subst copy_src.simps) simp
    qed
  qed
qed

lemma cstr_take_less: "NUL \<in> set (take n s) \<Longrightarrow> length (cstr s) < n"
proof -
  assume a: "NUL \<in> set (take n s)"
  have "cstr s = takeWhile (\<lambda>c. c \<noteq> NUL) (take n s @ drop n s)" by (simp add: cstr_def)
  also have "\<dots> = takeWhile (\<lambda>c. c \<noteq> NUL) (take n s)"
    using a by (intro takeWhile_append1 [where x = NUL]) auto
  finally have "length (cstr s) = length (cstr (take n s))" by (simp add: cstr_def)
  also have "\<dots> < length (take n s)" using a by (rule cstr_length_less)
  finally show ?thesis by simp
qed

lemma cstr_append_NUL: "NUL \<notin> set xs \<Longrightarrow> cstr (xs @ NUL # ys) = xs"
  by (auto simp: cstr_def takeWhile_tail)

lemma cstr_no_NUL: "NUL \<notin> set (cstr s)"
  unfolding cstr_def by (auto dest: set_takeWhileD)

lemma mystrlcat_eq:
  assumes nd: "NUL \<in> set (take sz dst)" and ns: "NUL \<in> set src" and sz: "sz \<le> length dst"
    and bound: "length (cstr dst) + length (cstr src) < SIZE_MAX1"
  shows "mystrlcat dst src sz =
    Some (cstr dst @ take (sz - 1 - length (cstr dst)) (cstr src)
            @ replicate (sz - length (cstr dst) - min (length (cstr src)) (sz - 1 - length (cstr dst))) NUL
            @ drop sz dst,
          length (cstr dst) + length (cstr src))"
proof -
  let ?k = "length (cstr dst)" and ?m = "length (cstr src)"
  have k: "?k < sz" using nd by (rule cstr_take_less)
  have nd': "NUL \<in> set dst" using nd by (auto dest: in_set_takeD)
  have m: "?m < length src" using ns by (rule cstr_length_less)
  have scan: "scan_dst dst 0 sz = Some ?k"
    using scan_dst_cstr [OF nd', of 0 sz] k by (simp add: min_def)
  define c where "c = min ?m (sz - 1 - ?k)"
  define d1 where "d1 = take ?k dst @ take c (drop 0 src) @ drop (?k + c) dst"
  have copy: "copy_src dst src ?k 0 (sz - 1) = Some (d1, ?k + c, c)"
    using copy_src_eq [OF ns, of 0 ?k "sz - 1" dst] k sz by (simp add: d1_def c_def)
  have kc: "?k + c \<le> sz - 1" and cm: "c \<le> ?m" using k by (simp_all add: c_def)
  have lk: "length (take ?k dst) = ?k" using k sz by simp
  have lc: "length (take c src) = c" using cm m by simp
  have len1: "length d1 = length dst" using k sz kc lk lc by (simp add: d1_def)
  have tk: "take (?k + c) d1 = take ?k dst @ take c src"
    using lk lc by (simp add: d1_def)
  have dr: "drop sz d1 = drop sz dst"
  proof -
    have "drop sz d1 = drop (sz - (?k + c)) (drop (?k + c) dst)"
      using lk lc kc by (simp add: d1_def)
    also have "\<dots> = drop sz dst" using kc k by simp
    finally show ?thesis .
  qed
  have fill: "fill_nul d1 (?k + c) (sz - 1) =
      Some (take ?k dst @ take c src @ replicate (sz - ?k - c) NUL @ drop sz dst)"
  proof -
    have p1: "?k + c \<le> sz - 1 + 1" using kc by simp
    have p2: "sz - 1 < length d1" using k sz len1 by simp
    have e1: "sz - 1 + 1 = sz" using k by simp
    have e2: "sz - (?k + c) = sz - ?k - c" by simp
    show ?thesis
      using fill_nul_eq [OF p1 p2] unfolding e1 e2 tk dr by simp
  qed
  have skip: "skip_src src c = Some (?m + 1)"
    using skip_src_cstr [OF ns, of c] cm by simp
  have t1: "take ?k dst = cstr dst" using cstr_eq_take [of dst] by simp
  have "take c src = take c (take ?m src)" using cm by (simp add: min_def)
  also have "\<dots> = take c (cstr src)" using cstr_eq_take [of src] by simp
  also have "\<dots> = take (sz - 1 - ?k) (cstr src)" by (simp add: c_def min_def)
  finally have t2: "take c src = take (sz - 1 - ?k) (cstr src)" .
  have e3: "sz - ?k - min ?m (sz - 1 - ?k) = sz - ?k - c" by (simp add: c_def)
  have ret: "(?k + (?m + 1 - 0 - 1)) mod SIZE_MAX1 = ?k + ?m" using bound by simp
  have nz: "sz - ?k \<noteq> 0" using k by simp
  have e4: "sz - ?k - c = sz - ?k - min ?m (sz - 1 - ?k)" by (simp add: c_def)
  show ?thesis
    unfolding mystrlcat_def scan
    by (simp only: Let_def option.case prod.case nz if_False copy fill [unfolded t1 t2 e4] skip ret)
qed

lemma mystrlcat_props:
  assumes nd: "NUL \<in> set (take sz dst)" and ns: "NUL \<in> set src" and sz: "sz \<le> length dst"
    and bound: "length (cstr dst) + length (cstr src) < SIZE_MAX1"
  shows "\<exists>dst'. mystrlcat dst src sz = Some (dst', length (cstr dst) + length (cstr src))
      \<and> length dst' = length dst
      \<and> drop sz dst' = drop sz dst
      \<and> NUL \<in> set (take sz dst')
      \<and> cstr dst' = take (sz - 1) (cstr dst @ cstr src)"
proof -
  let ?k = "length (cstr dst)" and ?m = "length (cstr src)"
  define t where "t = take (sz - 1 - ?k) (cstr src)"
  define r where "r = sz - ?k - min ?m (sz - 1 - ?k)"
  define d' where "d' = cstr dst @ t @ replicate r NUL @ drop sz dst"
  have k: "?k < sz" using nd by (rule cstr_take_less)
  have eq: "mystrlcat dst src sz = Some (d', ?k + ?m)"
    using mystrlcat_eq [OF assms] by (simp add: d'_def t_def r_def)
  have lt: "length t = min ?m (sz - 1 - ?k)" by (simp add: t_def)
  have r: "0 < r" and sum: "?k + length t + r = sz" using k lt by (simp_all add: r_def)
  have len: "length d' = length dst" using sum sz by (simp add: d'_def)
  have dr: "drop sz d' = drop sz dst"
  proof -
    have "d' = (cstr dst @ t @ replicate r NUL) @ drop sz dst" by (simp add: d'_def)
    moreover have "length (cstr dst @ t @ replicate r NUL) = sz" using sum by simp
    ultimately show ?thesis by (metis append_eq_conv_conj)
  qed
  have tk: "take sz d' = cstr dst @ t @ replicate r NUL"
  proof -
    have "d' = (cstr dst @ t @ replicate r NUL) @ drop sz dst" by (simp add: d'_def)
    moreover have "length (cstr dst @ t @ replicate r NUL) = sz" using sum by simp
    ultimately show ?thesis by (metis append_eq_conv_conj)
  qed
  have nul: "NUL \<in> set (take sz d')" using r by (simp add: tk)
  obtain r' where r': "r = Suc r'" using r by (cases r) auto
  have "NUL \<notin> set (cstr dst @ t)"
    using cstr_no_NUL [of dst] cstr_no_NUL [of src] by (auto simp: t_def dest: in_set_takeD)
  then have "cstr ((cstr dst @ t) @ NUL # (replicate r' NUL @ drop sz dst)) = cstr dst @ t"
    by (rule cstr_append_NUL)
  then have cs: "cstr d' = cstr dst @ t" by (simp add: d'_def r')
  have "take (sz - 1) (cstr dst @ cstr src) = cstr dst @ t"
    using k by (simp add: t_def)
  with cs have "cstr d' = take (sz - 1) (cstr dst @ cstr src)" by simp
  with eq len dr nul show ?thesis by blast
qed

text \<open>
  Claim C10.  Let \<open>dst\<close> hold a NUL among its first \<open>sz\<close> bytes, let \<open>src\<close> hold a NUL,
  and let the two string lengths add up to less than \<open>2^64\<close>.  Then \<open>mystrlcat dst src sz\<close>
  makes no access outside the arrays and returns the length of the string in \<open>dst\<close>
  plus the length of the string in \<open>src\<close>; the bytes of \<open>dst\<close> from index \<open>sz\<close> on are
  as before, \<open>dst\<close> still holds a NUL among its first \<open>sz\<close> bytes, and its string is the
  old string followed by the string of \<open>src\<close>, cut to \<open>sz - 1\<close> bytes.
\<close>

theorem mystrlcat_correct:
  assumes "NUL \<in> set (take sz dst)" and "NUL \<in> set src" and "sz \<le> length dst"
    and "length (cstr dst) + length (cstr src) < SIZE_MAX1"
  shows "\<exists>dst'. mystrlcat dst src sz = Some (dst', length (cstr dst) + length (cstr src))
      \<and> length dst' = length dst
      \<and> drop sz dst' = drop sz dst
      \<and> NUL \<in> set (take sz dst')
      \<and> cstr dst' = take (sz - 1) (cstr dst @ cstr src)"
  using assms by (rule mystrlcat_props)

theorem mystrlcat_correct_witness:
  "NUL \<in> set (take 5 [CHR ''a'', CHR ''b'', NUL, CHR ''c'', CHR ''d'', CHR ''e''])
   \<and> NUL \<in> set [CHR ''x'', CHR ''y'', CHR ''z'', NUL]
   \<and> (\<exists>dst'. mystrlcat [CHR ''a'', CHR ''b'', NUL, CHR ''c'', CHR ''d'', CHR ''e'']
           [CHR ''x'', CHR ''y'', CHR ''z'', NUL] 5 = Some (dst', 5)
         \<and> drop 5 dst' = [CHR ''e''] \<and> cstr dst' = ''abxy'')"
proof -
  let ?D = "[CHR ''a'', CHR ''b'', NUL, CHR ''c'', CHR ''d'', CHR ''e'']"
  let ?S = "[CHR ''x'', CHR ''y'', CHR ''z'', NUL]"
  have h1: "NUL \<in> set (take 5 ?D)" and h2: "NUL \<in> set ?S" and h3: "5 \<le> length ?D"
    by simp_all
  have cd: "cstr ?D = ''ab''" and cs: "cstr ?S = ''xyz''" by (simp_all add: cstr_def NUL_def)
  have h4: "length (cstr ?D) + length (cstr ?S) < SIZE_MAX1"
    by (simp add: cd cs SIZE_MAX1_def)
  have n: "length (cstr ?D) + length (cstr ?S) = 5" by (simp add: cd cs)
  from mystrlcat_correct [OF h1 h2 h3 h4] h1 h2 show ?thesis
    unfolding n by (auto simp add: cd cs)
qed

lemma takeWhile_nth_holds: "i < length (takeWhile P s) \<Longrightarrow> P (s ! i)"
  by (metis nth_mem set_takeWhileD takeWhile_nth)

lemma takeWhile_length_mono:
  "(\<And>x. Q x \<Longrightarrow> P x) \<Longrightarrow> length (takeWhile Q s) \<le> length (takeWhile P s)"
  by (induction s) auto

lemma strpbrk_from_eq:
  "NUL \<in> set s \<Longrightarrow> i \<le> length (takeWhile (\<lambda>c. c \<noteq> NUL \<and> c \<notin> set chars) s) \<Longrightarrow>
    strpbrk_from s chars i =
      Some (if length (takeWhile (\<lambda>c. c \<noteq> NUL \<and> c \<notin> set chars) s) < length (cstr s)
            then Some (length (takeWhile (\<lambda>c. c \<noteq> NUL \<and> c \<notin> set chars) s)) else None)"
proof (induction s chars i rule: strpbrk_from.induct)
  case (1 s chars i)
  let ?Q = "\<lambda>c. c \<noteq> NUL \<and> c \<notin> set chars"
  let ?j = "length (takeWhile ?Q s)" and ?k = "length (cstr s)"
  note nul = "1.prems"(1)
  have jk: "?j \<le> ?k" unfolding cstr_def by (rule takeWhile_length_mono) simp
  have kl: "?k < length s" using nul by (rule cstr_length_less)
  have in_range: "\<not> length s \<le> i" using "1.prems"(2) jk kl by simp
  show ?case
  proof (cases "i = ?j")
    case True
    have nq: "\<not> ?Q (s ! ?j)" using jk kl by (intro nth_length_takeWhile) simp
    show ?thesis
    proof (cases "s ! ?j = NUL")
      case nulj: True
      then have "\<not> ?j < ?k" using cstr_nth_neq by blast
      with nulj True in_range show ?thesis by (subst strpbrk_from.simps) simp
    next
      case False
      then have "?j \<noteq> ?k" using cstr_nth_NUL [OF nul] by auto
      with jk have "?j < ?k" by simp
      moreover have "s ! ?j \<in> set chars" using nq False by simp
      ultimately show ?thesis using False True in_range by (subst strpbrk_from.simps) simp
    qed
  next
    case False
    with "1.prems"(2) have lt: "i < ?j" by simp
    then have q: "?Q (s ! i)" by (rule takeWhile_nth_holds)
    have "strpbrk_from s chars (i + 1) = Some (if ?j < ?k then Some ?j else None)"
      using in_range q lt nul by (intro "1.IH") auto
    with in_range q show ?thesis by (subst strpbrk_from.simps) simp
  qed
qed

lemma strip_stored:
  assumes "n < length b"
  shows "takeWhile (\<lambda>c. c \<noteq> NUL \<and> c \<notin> set [CR, LF]) (b[n := NUL]) = strip (take n b)"
proof -
  have "b[n := NUL] = take n b @ NUL # drop (Suc n) b"
    using assms by (rule upd_conv_take_nth_drop)
  then show ?thesis by (simp add: strip_def takeWhile_tail)
qed

lemma respond_eq:
  assumes n0: "0 \<le> len d" and nl: "nat (len d) < length (buf d)" and lb: "length (buf d) = BUFSZ"
  shows "\<exists>b3. respond d = Some (strip (payload d),
                  d\<lparr>buf := b3, len := int (length (reply (payload d)))\<rparr>)
              \<and> length b3 = BUFSZ
              \<and> take (length (reply (payload d))) b3 = reply (payload d)"
proof -
  let ?Q = "\<lambda>c. c \<noteq> NUL \<and> c \<notin> set [CR, LF]"
  define b1 where "b1 = (buf d)[nat (len d) := NUL]"
  define j where "j = length (takeWhile ?Q b1)"
  define b2 where "b2 = (if j < length (cstr b1) then b1[j := NUL] else b1)"
  have l1: "length b1 = BUFSZ" by (simp add: b1_def lb)
  have nul1: "NUL \<in> set b1" using nl unfolding b1_def by (rule set_update_memI)
  have jk: "j \<le> length (cstr b1)"
    unfolding j_def cstr_def by (rule takeWhile_length_mono) simp
  have kl: "length (cstr b1) < length b1" using nul1 by (rule cstr_length_less)
  have pbrk: "strpbrk b1 [CR, LF] = Some (if j < length (cstr b1) then Some j else None)"
    unfolding strpbrk_def j_def using nul1 by (intro strpbrk_from_eq) simp_all
  have l2: "length b2 = BUFSZ" by (simp add: b2_def l1)
  have tw: "takeWhile ?Q b1 = take j b1" unfolding j_def by (rule takeWhile_eq_take)
  have c2: "cstr b2 = take j b1 \<and> NUL \<in> set b2"
  proof (cases "j < length (cstr b1)")
    case True
    then have b2: "b2 = b1[j := NUL]" by (simp add: b2_def)
    have jl: "j < length b2" using True kl by (simp add: b2)
    have at: "b2 ! j = NUL" using True kl by (simp add: b2)
    have before: "\<forall>i<j. b2 ! i \<noteq> NUL"
    proof (intro allI impI)
      fix i assume "i < j"
      then have "i < length (cstr b1)" using True by simp
      then have "b1 ! i \<noteq> NUL" by (rule cstr_nth_neq)
      with \<open>i < j\<close> show "b2 ! i \<noteq> NUL" by (simp add: b2)
    qed
    have "length (cstr b2) = j" using jl at before by (rule cstr_first_NUL)
    then have "cstr b2 = take j b2" using cstr_eq_take [of b2] by simp
    moreover have "take j b2 = take j b1" by (simp add: b2)
    moreover have "NUL \<in> set b2" using jl at by (metis nth_mem)
    ultimately show ?thesis by simp
  next
    case False
    with jk have "j = length (cstr b1)" by simp
    moreover have "b2 = b1" using False by (simp add: b2_def)
    ultimately show ?thesis using cstr_eq_take [of b1] nul1 by simp
  qed
  have st: "cstr b2 = strip (payload d)"
    using c2 tw strip_stored [OF nl] by (simp add: b1_def payload_def)
  have nul2: "NUL \<in> set (take BUFSZ b2)" using c2 l2 by simp
  have nulS: "NUL \<in> set OK_SUFFIX" by (simp add: OK_SUFFIX_def)
  have "length (cstr b2) < length b2" using c2 by (intro cstr_length_less) simp
  moreover have "length (cstr OK_SUFFIX) \<le> length OK_SUFFIX"
    unfolding cstr_def by (rule length_takeWhile_le)
  ultimately have bound: "length (cstr b2) + length (cstr OK_SUFFIX) < SIZE_MAX1"
    using l2 by (simp add: BUFSZ_def SIZE_MAX1_def OK_SUFFIX_def)
  from mystrlcat_props [OF nul2 nulS _ bound] l2
  obtain b3 where cat: "mystrlcat b2 OK_SUFFIX BUFSZ =
        Some (b3, length (cstr b2) + length (cstr OK_SUFFIX))"
    and l3: "length b3 = BUFSZ" and nul3: "NUL \<in> set (take BUFSZ b3)"
    and c3: "cstr b3 = take (BUFSZ - 1) (cstr b2 @ cstr OK_SUFFIX)"
    by auto
  have c3': "cstr b3 = reply (payload d)" using c3 st by (simp add: reply_def)
  have "NUL \<in> set b3" using nul3 by (auto dest: in_set_takeD)
  then have sl: "strlen b3 = Some (length (reply (payload d)))"
    using strlen_cstr [of b3] c3' by simp
  have tk: "take (length (reply (payload d))) b3 = reply (payload d)"
    using cstr_eq_take [of b3] c3' by simp
  have b2': "(case (if j < length (cstr b1) then Some j else None) of
               None \<Rightarrow> b1 | Some p \<Rightarrow> b1[p := NUL]) = b2"
    by (simp add: b2_def)
  have "respond d =
      (case strpbrk b1 [CR, LF] of
         None \<Rightarrow> None
       | Some ptr \<Rightarrow>
           let b2 = (case ptr of None \<Rightarrow> b1 | Some p \<Rightarrow> b1[p := NUL]) in
           (case mystrlcat b2 OK_SUFFIX BUFSZ of
              None \<Rightarrow> None
            | Some (b3, r) \<Rightarrow>
                (case strlen b3 of
                   None \<Rightarrow> None
                 | Some n \<Rightarrow> Some (cstr b2, d\<lparr>buf := b3, len := int n\<rparr>))))"
    unfolding respond_def b1_def Let_def using n0 nl by simp
  also have "\<dots> = Some (strip (payload d),
          d\<lparr>buf := b3, len := int (length (reply (payload d)))\<rparr>)"
    by (simp only: pbrk option.case Let_def b2' cat prod.case sl st)
  finally show ?thesis using l3 tk by blast
qed

section \<open>Well-formed states\<close>

lemma close_epollfd_simps [simp]:
  "g_queue (close_epollfd s) = g_queue s" "cur (close_epollfd s) = cur s"
  "count (close_epollfd s) = count s" "epoll (close_epollfd s) = {}"
  "epollfd_closed (close_epollfd s)" "closed (close_epollfd s) = closed s"
  "running (close_epollfd s) = running s" "recvd (close_epollfd s) = recvd s"
  "sends (close_epollfd s) = sends s" "logs (close_epollfd s) = logs s"
  by (simp_all add: close_epollfd_def)

lemma queue_next_neq: "i < MAXQUEUESZ \<Longrightarrow> QUEUE_NEXT i \<noteq> i"
  by (auto simp: QUEUE_NEXT_def MAXQUEUESZ_def mod_Suc)

lemma server_ok_queue: "server_ok s \<Longrightarrow> qi < MAXSENDER \<Longrightarrow> queue_ok (g_queue s ! qi)"
  by (simp add: server_ok_def)

lemma queue_ok_buf: "queue_ok q \<Longrightarrow> i < MAXQUEUESZ \<Longrightarrow> length (buf (data q ! i)) = BUFSZ"
  by (simp add: queue_ok_def)

lemma shard_less: "fd mod MAXSENDER < MAXSENDER"
  by (simp add: MAXSENDER_def)

lemma payload_recv_slot:
  "length (buf d) = BUFSZ \<Longrightarrow> payload (recv_slot fd (RecvOk bs) d) = take BUFSZ bs"
  by (simp add: payload_def recv_slot_def Let_def min_def)

lemma len_recv_slot: "len (recv_slot fd (RecvOk bs) d) = int (min (length bs) BUFSZ)"
  by (simp add: recv_slot_def Let_def)

lemma acc_recv_slot: "acc (recv_slot fd r d) = fd"
  by (simp add: recv_slot_def Let_def split: recv_result.splits)

lemma buf_len_recv_slot: "length (buf d) = BUFSZ \<Longrightarrow> length (buf (recv_slot fd r d)) = BUFSZ"
  by (simp add: recv_slot_def Let_def split: recv_result.splits)

lemma on_readable_data:
  assumes ok: "server_ok s" and r: "recv_ret sc = RecvOk bs" and ne: "bs \<noteq> []"
  shows "on_readable fd sc s =
     s\<lparr>g_queue := (g_queue s)[fd mod MAXSENDER := enqueue fd bs (g_queue s ! (fd mod MAXSENDER))],
       recvd := recvd s @ [(fd, take BUFSZ bs)]\<rparr>"
proof -
  let ?qi = "fd mod MAXSENDER"
  let ?q = "g_queue s ! ?qi"
  have q: "queue_ok ?q" using ok shard_less by (rule server_ok_queue)
  then have l: "last_ix ?q < length (data ?q)" by (simp add: queue_ok_def)
  have b: "length (buf (data ?q ! last_ix ?q)) = BUFSZ"
    using q by (intro queue_ok_buf) (simp_all add: queue_ok_def)
  have qi: "?qi < length (g_queue s)" using ok shard_less by (simp add: server_ok_def)
  let ?d = "recv_slot fd (RecvOk bs) (data ?q ! last_ix ?q)"
  have slot: "data (recv_queue fd (RecvOk bs) ?q) ! last_ix (recv_queue fd (RecvOk bs) ?q) = ?d"
    using l by (simp add: recv_queue_def)
  have n: "len ?d \<noteq> - 1" "len ?d \<noteq> 0"
    using ne by (simp_all add: len_recv_slot BUFSZ_def min_def)
  have p: "payload ?d = take BUFSZ bs" using b by (rule payload_recv_slot)
  show ?thesis
    unfolding on_readable_def Let_def r slot using n qi by (simp add: p enqueue_def)
qed

lemma server_ok_init: "server_ok init"
  by (auto simp: server_ok_def init_def queue_ok_def zero_queue_def zero_data_def MAXQUEUESZ_def)

lemma queue_ok_recv_queue: "queue_ok q \<Longrightarrow> queue_ok (recv_queue fd r q)"
proof -
  assume q: "queue_ok q"
  then have "length (buf (recv_slot fd r (data q ! last_ix q))) = BUFSZ"
    by (intro buf_len_recv_slot queue_ok_buf) (simp_all add: queue_ok_def)
  with q show ?thesis
    by (auto simp: queue_ok_def recv_queue_def dest!: set_update_subset_insert [THEN subsetD])
qed

lemma queue_next_less: "QUEUE_NEXT i < MAXQUEUESZ"
  by (simp add: QUEUE_NEXT_def MAXQUEUESZ_def)

lemma queue_ok_publish: "queue_ok q \<Longrightarrow> queue_ok (publish q)"
  by (simp add: queue_ok_def publish_def queue_next_less)

lemma queue_ok_enqueue: "queue_ok q \<Longrightarrow> queue_ok (enqueue fd bs q)"
  by (simp add: enqueue_def queue_ok_publish queue_ok_recv_queue)

lemma queue_ok_dequeue: "queue_ok q \<Longrightarrow> dequeue q = Some (i, q1) \<Longrightarrow> queue_ok q1 \<and> i = front q"
  by (auto simp: dequeue_def queue_ok_def queue_next_less split: if_splits)

lemma queue_ok_data_update:
  "queue_ok q \<Longrightarrow> length (buf d) = BUFSZ \<Longrightarrow> queue_ok (q\<lparr>data := (data q)[i := d]\<rparr>)"
  by (auto simp: queue_ok_def dest!: set_update_subset_insert [THEN subsetD])

lemma server_ok_queue_update:
  "server_ok s \<Longrightarrow> queue_ok q \<Longrightarrow> g_queue s1 = (g_queue s)[qi := q] \<Longrightarrow>
   length (cur s1) = length (cur s) \<Longrightarrow> server_ok s1"
  by (auto simp: server_ok_def dest!: set_update_subset_insert [THEN subsetD])

lemma server_ok_same:
  "server_ok s \<Longrightarrow> g_queue s1 = g_queue s \<Longrightarrow> cur s1 = cur s \<Longrightarrow> server_ok s1"
  by (simp add: server_ok_def)

lemma server_ok_on_accept: "server_ok s \<Longrightarrow> server_ok (on_accept soc sc s)"
  by (auto simp: server_ok_def on_accept_def add_log_def Let_def split: option.splits)

lemma server_ok_on_readable:
  assumes ok: "server_ok s"
  shows "server_ok (on_readable fd sc s)"
proof -
  let ?qi = "fd mod MAXSENDER"
  let ?q1 = "recv_queue fd (recv_ret sc) (g_queue s ! ?qi)"
  have q1: "queue_ok ?q1"
    using ok shard_less by (intro queue_ok_recv_queue server_ok_queue)
  show ?thesis
  proof (cases "len (data ?q1 ! last_ix ?q1) = - 1 \<or> len (data ?q1 ! last_ix ?q1) = 0")
    case True
    then have "g_queue (on_readable fd sc s) = (g_queue s)[?qi := ?q1]
        \<and> length (cur (on_readable fd sc s)) = length (cur s)"
      by (auto simp: on_readable_def Let_def add_log_def split: option.splits)
    with ok q1 show ?thesis by (blast intro: server_ok_queue_update)
  next
    case False
    then have "g_queue (on_readable fd sc s) = (g_queue s)[?qi := publish ?q1]
        \<and> length (cur (on_readable fd sc s)) = length (cur s)"
      by (auto simp: on_readable_def Let_def)
    with ok queue_ok_publish [OF q1] show ?thesis by (blast intro: server_ok_queue_update)
  qed
qed

lemma server_ok_on_ready: "server_ok s \<Longrightarrow> server_ok (on_ready soc fd sc s)"
  by (simp add: on_ready_def server_ok_on_accept server_ok_on_readable)

lemma server_ok_for_ready: "server_ok s \<Longrightarrow> server_ok (for_ready soc evs s)"
  by (induction soc evs s rule: for_ready.induct) (simp_all add: Let_def server_ok_on_ready)

lemma server_ok_add_log: "server_ok (add_log l s) = server_ok s"
  by (simp add: server_ok_def add_log_def)

lemma server_ok_accept_loop_iter: "server_ok s \<Longrightarrow> server_ok (accept_loop_iter soc w s)"
  by (simp add: accept_loop_iter_def Let_def server_ok_add_log server_ok_for_ready
      split: wait_result.splits)

section \<open>What a send thread transmits\<close>

lemma respond_send:
  assumes "0 \<le> len d" and "nat (len d) < length (buf d)" and "length (buf d) = BUFSZ"
  shows "\<exists>d1. respond d = Some (strip (payload d), d1) \<and> acc d1 = acc d
     \<and> length (buf d1) = BUFSZ \<and> send_bytes d1 = reply (payload d)"
proof -
  from respond_eq [OF assms] obtain b3 where
    r: "respond d = Some (strip (payload d), d\<lparr>buf := b3, len := int (length (reply (payload d)))\<rparr>)"
    and l: "length b3 = BUFSZ" and t: "take (length (reply (payload d))) b3 = reply (payload d)"
    by blast
  have "send_bytes (d\<lparr>buf := b3, len := int (length (reply (payload d)))\<rparr>) = reply (payload d)"
    using t by (simp add: send_bytes_def)
  with r l show ?thesis by simp
qed

lemma cstr_OK_SUFFIX: "cstr OK_SUFFIX = '':OK'' @ [CR, LF]"
  by (simp add: cstr_def OK_SUFFIX_def NUL_def CR_def LF_def)

lemma send_thread_send_eq:
  assumes c: "cur s ! qi = Some i"
    and n0: "0 \<le> len (data (g_queue s ! qi) ! i)"
    and nl: "nat (len (data (g_queue s ! qi) ! i)) < BUFSZ"
    and lb: "length (buf (data (g_queue s ! qi) ! i)) = BUFSZ"
  shows "\<exists>s1 d1. send_thread_send qi ok s = Some s1
      \<and> sends s1 = sends s @ [(acc (data (g_queue s ! qi) ! i),
                               reply (payload (data (g_queue s ! qi) ! i)), ok)]
      \<and> g_queue s1 = (g_queue s)[qi := (g_queue s ! qi)\<lparr>data := (data (g_queue s ! qi))[i := d1]\<rparr>]
      \<and> length (buf d1) = BUFSZ
      \<and> cur s1 = (cur s)[qi := None]
      \<and> count s1 = count s \<and> epoll s1 = epoll s \<and> closed s1 = closed s
      \<and> running s1 = running s \<and> recvd s1 = recvd s"
proof -
  let ?d = "data (g_queue s ! qi) ! i"
  from respond_eq [of ?d] n0 nl lb
  obtain b3 where r: "respond ?d = Some (strip (payload ?d),
                  ?d\<lparr>buf := b3, len := int (length (reply (payload ?d)))\<rparr>)"
    and l3: "length b3 = BUFSZ"
    and t3: "take (length (reply (payload ?d))) b3 = reply (payload ?d)"
    by auto
  show ?thesis
    using c l3 t3
    by (auto simp: send_thread_send_def Let_def r add_log_def send_bytes_def)
qed

lemma add_log_simps:
  "g_queue (add_log l s) = g_queue s" "cur (add_log l s) = cur s"
  "count (add_log l s) = count s" "epoll (add_log l s) = epoll s"
  "epollfd_closed (add_log l s) = epollfd_closed s"
  "closed (add_log l s) = closed s" "running (add_log l s) = running s"
  "recvd (add_log l s) = recvd s" "sends (add_log l s) = sends s"
  "logs (add_log l s) = logs s @ [l]"
  by (simp_all add: add_log_def)

lemma reply_hello: "reply hello = hello_ok"
  by (simp add: reply_def strip_def hello_def hello_ok_def cstr_def OK_SUFFIX_def
      NUL_def CR_def LF_def BUFSZ_def)

lemma hello_roundtrip_h:
  assumes ok: "server_ok s" and run: "running s" and fd: "fd \<noteq> soc"
    and empty: "front (g_queue s ! (fd mod MAXSENDER)) = last_ix (g_queue s ! (fd mod MAXSENDER))"
    and idle: "cur s ! (fd mod MAXSENDER) = None"
    and rcv: "recv_ret sc = RecvOk hello"
  shows "\<exists>s1. run soc [MainIter (WaitReady [(fd, sc)]), WorkerPop (fd mod MAXSENDER),
                        WorkerSend (fd mod MAXSENDER) True] s = Some s1
              \<and> sends s1 = sends s @ [(fd, hello_ok, True)]"
proof -
  let ?qi = "fd mod MAXSENDER"
  let ?q = "g_queue s ! ?qi"
  let ?s0 = "add_log (ChildCount (count s)) s"
  have q: "queue_ok ?q" using ok shard_less by (rule server_ok_queue)
  have qi: "?qi < length (g_queue s)" "?qi < length (cur s)"
    using ok shard_less by (simp_all add: server_ok_def)
  have ne: "hello \<noteq> []" by (simp add: hello_def)
  define s1 where "s1 = accept_loop_iter soc (WaitReady [(fd, sc)]) s"
  have s1: "s1 = ?s0\<lparr>g_queue := (g_queue s)[?qi := enqueue fd hello ?q],
                      recvd := recvd s @ [(fd, take BUFSZ hello)]\<rparr>"
    using run fd on_readable_data [of ?s0 sc hello fd] ok rcv ne
    by (simp add: s1_def accept_loop_iter_def on_ready_def Let_def server_ok_add_log add_log_simps)
  define q2 where "q2 = (enqueue fd hello ?q)\<lparr>front := QUEUE_NEXT (front ?q)\<rparr>"
  have deq: "dequeue (enqueue fd hello ?q) = Some (front ?q, q2)"
    using q empty queue_next_neq [of "last_ix ?q"]
    by (simp add: dequeue_def enqueue_def publish_def recv_queue_def q2_def queue_ok_def)
  define s2 where "s2 = send_thread_pop ?qi s1"
  have s2: "s2 = s1\<lparr>g_queue := (g_queue s1)[?qi := q2], cur := (cur s1)[?qi := Some (front ?q)]\<rparr>"
    using idle qi deq by (simp add: s2_def send_thread_pop_def s1 add_log_simps)
  let ?d = "recv_slot fd (RecvOk hello) (data ?q ! last_ix ?q)"
  have c2: "cur s2 ! ?qi = Some (front ?q)" using qi by (simp add: s2 s1 add_log_simps)
  have d2: "data (g_queue s2 ! ?qi) ! front ?q = ?d"
    using qi q empty
    by (simp add: s2 s1 q2_def enqueue_def publish_def recv_queue_def queue_ok_def)
  have b: "length (buf (data ?q ! last_ix ?q)) = BUFSZ"
    using q by (intro queue_ok_buf) (simp_all add: queue_ok_def)
  have p: "payload ?d = hello"
    using payload_recv_slot [OF b, of fd hello] by (simp add: hello_def BUFSZ_def)
  have n: "len ?d = 7" by (simp add: len_recv_slot hello_def BUFSZ_def)
  from send_thread_send_eq [OF c2, of True] d2 n buf_len_recv_slot [OF b, of fd "RecvOk hello"]
  obtain s3 where s3: "send_thread_send ?qi True s2 = Some s3"
    and snd: "sends s3 = sends s2 @ [(acc ?d, reply (payload ?d), True)]"
    by (auto simp: BUFSZ_def)
  have "sends s2 = sends s" by (simp add: s2 s1 add_log_simps)
  with snd have "sends s3 = sends s @ [(fd, hello_ok, True)]"
    by (simp add: p acc_recv_slot reply_hello)
  moreover have "run soc [MainIter (WaitReady [(fd, sc)]), WorkerPop ?qi, WorkerSend ?qi True] s
      = Some s3"
    using s3 shard_less by (simp add: s1_def s2_def)
  ultimately show ?thesis by blast
qed

lemma init_simps:
  "running init" "front (g_queue init ! (4 mod MAXSENDER)) = last_ix (g_queue init ! (4 mod MAXSENDER))"
  "cur init ! (4 mod MAXSENDER) = None" "sends init = []" "recvd init = []"
  by (simp_all add: init_def MAXSENDER_def zero_queue_def)


lemma accepted_simps:
  "server_ok accepted" "running accepted" "epoll accepted = {4}" "count accepted = 1"
  "closed accepted = []" "cur accepted = cur init" "g_queue accepted = g_queue init"
  "sends accepted = []" "recvd accepted = []"
proof -
  show "server_ok accepted"
    unfolding accepted_def using server_ok_init by (rule server_ok_accept_loop_iter)
  show "running accepted" "epoll accepted = {4}" "count accepted = 1"
    "closed accepted = []" "cur accepted = cur init" "g_queue accepted = g_queue init"
    "sends accepted = []" "recvd accepted = []"
    by (simp_all add: accepted_def accept_loop_iter_def on_ready_def on_accept_def Let_def conn_def
        add_log_def epoll_ctl_add_def MAX_CHILD_def init_def)
qed

lemma accepted_shard:
  "front (g_queue accepted ! (4 mod MAXSENDER)) = last_ix (g_queue accepted ! (4 mod MAXSENDER))"
  "cur accepted ! (4 mod MAXSENDER) = None"
  by (simp_all add: accepted_simps init_simps)

section \<open>Admission of connections\<close>

lemma count_inv_init: "count_inv init"
  by (simp add: count_inv_def init_def MAX_CHILD_def)

lemma count_inv_on_accept: "count_inv s \<Longrightarrow> running s \<Longrightarrow> count_inv (on_accept soc sc s)"
  by (auto simp: count_inv_def on_accept_def add_log_def epoll_ctl_add_def Let_def MAX_CHILD_def
      split: option.splits if_splits)

lemma card_del_int: "finite E \<Longrightarrow> fd \<in> E \<Longrightarrow> int (card (E - {fd})) = int (card E) - 1"
  by (cases "card E") (auto simp: card_Diff_singleton)

lemma count_inv_on_readable: "count_inv s \<Longrightarrow> running s \<Longrightarrow> count_inv (on_readable fd sc s)"
  by (auto simp: count_inv_def on_readable_def add_log_def epoll_ctl_del_def Let_def MAX_CHILD_def
      card_del_int simp del: card_Diff_insert
      split: option.splits if_splits)

lemma count_inv_on_ready: "count_inv s \<Longrightarrow> running s \<Longrightarrow> count_inv (on_ready soc fd sc s)"
  by (simp add: on_ready_def count_inv_on_accept count_inv_on_readable)

lemma count_inv_for_ready: "count_inv s \<Longrightarrow> running s \<Longrightarrow> count_inv (for_ready soc evs s)"
  by (induction soc evs s rule: for_ready.induct) (simp_all add: Let_def count_inv_on_ready)

lemma count_inv_add_log: "count_inv (add_log l s) = count_inv s"
  by (simp add: count_inv_def add_log_def)

lemma running_add_log: "running (add_log l s) = running s"
  by (simp add: add_log_def)

lemma count_inv_accept_loop_iter: "count_inv s \<Longrightarrow> count_inv (accept_loop_iter soc w s)"
  by (cases w)
    (simp_all add: accept_loop_iter_def Let_def count_inv_add_log count_inv_for_ready
      running_add_log)

lemma count_inv_pop: "count_inv (send_thread_pop qi s) = count_inv s"
  by (simp add: send_thread_pop_def count_inv_def split: option.splits prod.splits)

lemma count_inv_send: "send_thread_send qi ok s = Some s1 \<Longrightarrow> count_inv s1 = count_inv s"
  by (auto simp: send_thread_send_def count_inv_def add_log_def Let_def split: option.splits prod.splits if_splits)

lemma count_inv_step: "step soc e s = Some s1 \<Longrightarrow> count_inv s \<Longrightarrow> count_inv s1"
  by (cases e) (auto simp: count_inv_accept_loop_iter count_inv_pop count_inv_send split: if_splits)

lemma count_inv_run: "run soc es s = Some s1 \<Longrightarrow> count_inv s \<Longrightarrow> count_inv s1"
  by (induction es arbitrary: s) (auto split: option.splits dest: count_inv_step)

lemma count_never_max:
  assumes "run soc evs init = Some s"
  shows "count s \<le> MAX_CHILD - 1 \<and> (\<not> epollfd_closed s \<longrightarrow> int (card (epoll s)) = count s)"
proof -
  have "count_inv s"
    using assms count_inv_init by (rule count_inv_run)
  then show ?thesis by (simp add: count_inv_def split: if_splits)
qed

text \<open>
  Claim C2 fails on the code.  The guard of \<open>accept_loop\<close> is \<open>count + 1 >= MAX_CHILD\<close>:
  with 19 connections registered, each accepted in a round of its own, the counter is
  19, below \<open>MAX_CHILD\<close>, and the twentieth connection, 23, is closed, not registered
  and not counted.
\<close>

theorem twentieth_connection_refused:
  "count (accept_each [4..<23] init) = 19
   \<and> count (accept_each [4..<23] init) < MAX_CHILD
   \<and> 23 \<notin> epoll (accept_each [4..<23] init)
   \<and> 23 \<notin> epoll (on_accept 3 (conn 23) (accept_each [4..<23] init))
   \<and> count (on_accept 3 (conn 23) (accept_each [4..<23] init)) = 19
   \<and> closed (on_accept 3 (conn 23) (accept_each [4..<23] init)) = [23]"
  by (simp add: upt_rec [of _ 23] accept_loop_iter_def on_ready_def on_accept_def add_log_def
        epoll_ctl_add_def init_def conn_def MAX_CHILD_def Let_def)

section \<open>Failures in \<open>accept_loop\<close> and in the send threads\<close>


text \<open>
  Claim C6, as the code has it.  When \<open>epoll_ctl\<close> fails for a connection that was just
  accepted, the connection is closed, the epoll instance is closed, so that no
  connection is registered any more, and \<open>accept_loop\<close> returns: no other connection
  is closed, the counter and the queues are as before, the ready descriptors that
  follow are not handled, and no later iteration of the loop does anything.
\<close>

theorem registration_failure:
  assumes "accept_ret sc = Some a" and "count s + 1 < MAX_CHILD"
    and "epoll_ctl_add soc a (epoll_ctl_ok sc) (epoll s) = None"
  shows "closed (on_ready soc soc sc s) = closed s @ [a]
     \<and> \<not> running (on_ready soc soc sc s)
     \<and> epollfd_closed (on_ready soc soc sc s)
     \<and> epoll (on_ready soc soc sc s) = {}
     \<and> count (on_ready soc soc sc s) = count s
     \<and> g_queue (on_ready soc soc sc s) = g_queue s
     \<and> for_ready soc ((soc, sc) # rest) s = on_ready soc soc sc s
     \<and> accept_loop_iter soc w (on_ready soc soc sc s) = on_ready soc soc sc s"
  using assms
  by (simp add: on_ready_def on_accept_def Let_def add_log_def accept_loop_iter_def)

theorem registration_failure_witness:
  "accept_ret (conn_fail 5) = Some 5 \<and> count accepted + 1 < MAX_CHILD
   \<and> epoll_ctl_add 3 5 (epoll_ctl_ok (conn_fail 5)) (epoll accepted) = None
   \<and> closed (on_ready 3 3 (conn_fail 5) accepted) = [5]
   \<and> \<not> running (on_ready 3 3 (conn_fail 5) accepted)
   \<and> epollfd_closed (on_ready 3 3 (conn_fail 5) accepted)
   \<and> epoll (on_ready 3 3 (conn_fail 5) accepted) = {}
   \<and> for_ready 3 [(3, conn_fail 5), (4, rd hello)] accepted = on_ready 3 3 (conn_fail 5) accepted"
proof -
  have h: "accept_ret (conn_fail 5) = Some 5" "count accepted + 1 < MAX_CHILD"
    "epoll_ctl_add 3 5 (epoll_ctl_ok (conn_fail 5)) (epoll accepted) = None"
    by (simp_all add: conn_fail_def accepted_simps MAX_CHILD_def epoll_ctl_add_def)
  from registration_failure [OF h, of "[(4, rd hello)]"] h show ?thesis
    by (simp add: accepted_simps)
qed

text \<open>
  Claim C6 as stated fails: with connection 4 registered, the registration of
  connection 5 fails; the epoll instance is closed and with it the registration of
  connection 4, the loop has returned, and the request of connection 4, ready in the
  same round or in a later one, is never read.
\<close>

theorem registration_failure_counterexample:
  "\<not> running (accept_loop_iter 3 (WaitReady [(3, conn_fail 5), (4, rd hello)]) accepted)
   \<and> recvd (accept_loop_iter 3 (WaitReady [(3, conn_fail 5), (4, rd hello)]) accepted) = []
   \<and> recvd (accept_loop_iter 3 (WaitReady [(4, rd hello)])
        (accept_loop_iter 3 (WaitReady [(3, conn_fail 5), (4, rd hello)]) accepted)) = []
   \<and> 4 \<in> epoll accepted
   \<and> epoll (accept_loop_iter 3 (WaitReady [(3, conn_fail 5), (4, rd hello)]) accepted) = {}
   \<and> epollfd_closed (accept_loop_iter 3 (WaitReady [(3, conn_fail 5), (4, rd hello)]) accepted)
   \<and> closed (accept_loop_iter 3 (WaitReady [(3, conn_fail 5), (4, rd hello)]) accepted) = [5]"
  by (simp add: accept_loop_iter_def on_ready_def on_accept_def Let_def add_log_def
      conn_fail_def accepted_simps MAX_CHILD_def epoll_ctl_add_def)

text \<open>
  Claim C4, as the code has it.  For a ready connection \<open>fd\<close>: when \<open>recv\<close> returns
  data, nothing is torn down.  When it returns 0 or \<open>-1\<close>, whatever \<open>errno\<close> is, the
  connection is deregistered, closed and the counter decremented, provided that the
  deregistration succeeds; when the deregistration fails, the epoll instance is closed
  and \<open>accept_loop\<close> returns, and the connection is neither closed nor uncounted.
\<close>

theorem read_teardown:
  assumes "server_ok s" and "fd \<noteq> soc"
  shows "if (\<exists>bs. recv_ret sc = RecvOk bs \<and> bs \<noteq> []) then
           epoll (on_ready soc fd sc s) = epoll s \<and> closed (on_ready soc fd sc s) = closed s
           \<and> count (on_ready soc fd sc s) = count s
           \<and> running (on_ready soc fd sc s) = running s
         else if epoll_ctl_ok sc \<and> fd \<in> epoll s then
           epoll (on_ready soc fd sc s) = epoll s - {fd}
           \<and> closed (on_ready soc fd sc s) = closed s @ [fd]
           \<and> count (on_ready soc fd sc s) = count s - 1
           \<and> running (on_ready soc fd sc s) = running s
         else
           \<not> running (on_ready soc fd sc s)
           \<and> epollfd_closed (on_ready soc fd sc s) \<and> epoll (on_ready soc fd sc s) = {}
           \<and> closed (on_ready soc fd sc s) = closed s
           \<and> count (on_ready soc fd sc s) = count s"
proof -
  let ?q = "g_queue s ! (fd mod MAXSENDER)"
  have q: "queue_ok ?q" using assms(1) shard_less by (rule server_ok_queue)
  then have l: "last_ix ?q < length (data ?q)" by (simp add: queue_ok_def)
  have slot: "data (recv_queue fd (recv_ret sc) ?q) ! last_ix (recv_queue fd (recv_ret sc) ?q)
      = recv_slot fd (recv_ret sc) (data ?q ! last_ix ?q)"
    using l by (simp add: recv_queue_def)
  show ?thesis
  proof (cases "recv_ret sc")
    case (RecvErr e)
    then show ?thesis
      using assms(2) unfolding on_ready_def on_readable_def Let_def slot
      by (simp add: recv_slot_def add_log_def epoll_ctl_del_def)
  next
    case (RecvOk bs)
    then show ?thesis
      using assms(2) unfolding on_ready_def on_readable_def Let_def slot
      by (cases bs) (simp_all add: recv_slot_def add_log_def epoll_ctl_del_def BUFSZ_def Let_def min_def)
  qed
qed

theorem read_teardown_witness:
  "server_ok accepted \<and> (4::nat) \<noteq> 3 \<and> 4 \<in> epoll accepted
   \<and> epoll (on_ready 3 4 (rd []) accepted) = {}
   \<and> closed (on_ready 3 4 (rd []) accepted) = [4]
   \<and> count (on_ready 3 4 (rd []) accepted) = 0
   \<and> count (on_ready 3 4 (rd hello) accepted) = 1
   \<and> \<not> running (on_ready 3 5 (rd []) accepted)"
proof -
  have n: "(4::nat) \<noteq> 3" "(5::nat) \<noteq> 3" by simp_all
  have h: "hello \<noteq> []" by (simp add: hello_def)
  from read_teardown [OF accepted_simps(1) n(1), of "rd []"]
    read_teardown [OF accepted_simps(1) n(1), of "rd hello"]
    read_teardown [OF accepted_simps(1) n(2), of "rd []"]
    accepted_simps h
  show ?thesis by (simp add: rd_def)
qed

text \<open>
  Claim C4 as stated fails: a \<open>recv\<close> that is interrupted (\<open>-1\<close> with \<open>EINTR\<close>) on the
  registered connection 4 tears the connection down.
\<close>

theorem interrupted_read_counterexample:
  "4 \<in> epoll accepted \<and> recv_ret rd_eintr = RecvErr True
   \<and> epoll (on_ready 3 4 rd_eintr accepted) = {}
   \<and> closed (on_ready 3 4 rd_eintr accepted) = [4]
   \<and> count (on_ready 3 4 rd_eintr accepted) = 0"
  by (simp add: accepted_simps on_ready_def on_readable_def Let_def rd_eintr_def recv_queue_def
      recv_slot_def add_log_def epoll_ctl_del_def init_def MAXSENDER_def zero_queue_def
      MAXQUEUESZ_def)



section \<open>The reply\<close>

text \<open>
  Claim C3, as the code has it.  For an entry with fewer than \<open>sizeof(buf)\<close> bytes
  received, the bytes passed to \<open>send\<close> are the received bytes before their first NUL,
  CR or LF, followed by \<open>:OK\r\n\<close>, the whole cut to \<open>sizeof(buf) - 1\<close> bytes; the line
  that is logged is the same stripped bytes.
\<close>

theorem response_bytes:
  assumes "0 \<le> len d" and "nat (len d) < BUFSZ" and "length (buf d) = BUFSZ"
  shows "\<exists>d1. respond d = Some (strip (payload d), d1)
            \<and> acc d1 = acc d
            \<and> send_bytes d1 = take (BUFSZ - 1) (strip (payload d) @ '':OK'' @ [CR, LF])"
  using respond_send [of d] assms by (auto simp: reply_def cstr_OK_SUFFIX)

theorem response_bytes_witness:
  "0 \<le> len hello_data \<and> nat (len hello_data) < BUFSZ \<and> length (buf hello_data) = BUFSZ
   \<and> (\<exists>d1. respond hello_data = Some (''hello'', d1) \<and> acc d1 = 4
          \<and> send_bytes d1 = ''hello:OK'' @ [CR, LF])"
proof -
  have h: "0 \<le> len hello_data" "nat (len hello_data) < BUFSZ" "length (buf hello_data) = BUFSZ"
    by (simp_all add: hello_data_def BUFSZ_def)
  have p: "strip (payload hello_data) = ''hello''"
    by (simp add: payload_def hello_data_def strip_def NUL_def CR_def LF_def)
  have a: "acc hello_data = 4" by (simp add: hello_data_def)
  have t: "take (BUFSZ - 1) (''hello'' @ '':OK'' @ [CR, LF]) = ''hello:OK'' @ [CR, LF]"
    by (simp add: BUFSZ_def)
  from response_bytes [OF h] h show ?thesis unfolding p a t by simp
qed

text \<open>
  Claim C3 as stated fails: for the bytes \<open>hello\r\n\<close> the reply is \<open>hello:OK\r\n\<close>,
  not the received bytes followed by \<open>:OK\r\n\<close>.
\<close>

theorem response_keeps_crlf_counterexample:
  "map_option (send_bytes \<circ> snd) (respond hello_data) = Some (''hello:OK'' @ [CR, LF])
   \<and> payload hello_data = ''hello'' @ [CR, LF]
   \<and> ''hello:OK'' @ [CR, LF] \<noteq> payload hello_data @ '':OK'' @ [CR, LF]"
proof -
  have h: "0 \<le> len hello_data" "nat (len hello_data) < length (buf hello_data)"
    "length (buf hello_data) = BUFSZ"
    by (simp_all add: hello_data_def BUFSZ_def)
  have p: "payload hello_data = ''hello'' @ [CR, LF]"
    by (simp add: payload_def hello_data_def)
  have r: "reply (''hello'' @ [CR, LF]) = ''hello:OK'' @ [CR, LF]"
    using reply_hello by (simp add: hello_def hello_ok_def)
  have ne: "''hello:OK'' @ [CR, LF] \<noteq> (''hello'' @ [CR, LF]) @ '':OK'' @ [CR, LF]"
    by (simp add: CR_def)
  from respond_send [OF h] obtain d1 where "respond hello_data = Some (strip (payload hello_data), d1)"
    and "send_bytes d1 = ''hello:OK'' @ [CR, LF]"
    unfolding p r by blast
  then have "map_option (send_bytes \<circ> snd) (respond hello_data)
      = Some (''hello:OK'' @ [CR, LF])"
    by simp
  with p ne show ?thesis by simp
qed

text \<open>
  Claim C5 fails on the code: \<open>recv\<close> is given \<open>sizeof(buf)\<close> as its limit, so an entry
  can hold 512 bytes, and the send thread then stores the NUL at \<open>buf[512]\<close>, outside
  the array.
\<close>

theorem store_outside_buf_at_512:
  "run 3 [MainIter (WaitReady [(3, conn 4)]),
          MainIter (WaitReady [(4, rd (replicate 512 (CHR ''a'')))]),
          WorkerPop 0, WorkerSend 0 True] init = None"
proof -
  let ?bs = "replicate 512 (CHR ''a'')"
  define s1 where "s1 = accept_loop_iter 3 (WaitReady [(3, conn 4)]) init"
  have "server_ok s1" unfolding s1_def using server_ok_init by (rule server_ok_accept_loop_iter)
  moreover have "running s1" "cur s1 = cur init" "g_queue s1 = g_queue init"
    by (simp_all add: s1_def accept_loop_iter_def on_ready_def on_accept_def Let_def conn_def
        add_log_def epoll_ctl_add_def MAX_CHILD_def init_def)
  ultimately have s1: "server_ok s1" "running s1" "cur s1 = cur init" "g_queue s1 = g_queue init"
    by blast+
  define s2 where "s2 = accept_loop_iter 3 (WaitReady [(4, rd ?bs)]) s1"
  let ?s0 = "add_log (ChildCount (count s1)) s1"
  have s2: "s2 = ?s0\<lparr>g_queue := (g_queue ?s0)[4 mod MAXSENDER := enqueue 4 ?bs (g_queue ?s0 ! (4 mod MAXSENDER))],
       recvd := recvd ?s0 @ [(4, take BUFSZ ?bs)]\<rparr>"
    using s1 on_readable_data [of ?s0 "rd ?bs" ?bs 4]
    by (simp add: s2_def accept_loop_iter_def on_ready_def Let_def server_ok_add_log add_log_simps rd_def)
  define s3 where "s3 = send_thread_pop 0 s2"
  have c3: "cur s3 ! 0 = Some 0"
    by (simp add: s3_def s2 s1 add_log_simps send_thread_pop_def init_def MAXSENDER_def
        dequeue_def enqueue_def publish_def recv_queue_def zero_queue_def QUEUE_NEXT_def MAXQUEUESZ_def)
  have d3: "len (data (g_queue s3 ! 0) ! 0) = 512 \<and> length (buf (data (g_queue s3 ! 0) ! 0)) = 512"
    by (simp add: s3_def s2 s1 add_log_simps send_thread_pop_def init_def MAXSENDER_def
        dequeue_def enqueue_def publish_def recv_queue_def zero_queue_def QUEUE_NEXT_def MAXQUEUESZ_def
        recv_slot_def zero_data_def BUFSZ_def Let_def)
  have "send_thread_send 0 True s3 = None"
    using c3 d3 by (simp add: send_thread_send_def respond_def Let_def)
  then show ?thesis
    by (simp add: s1_def s2_def s3_def MAXSENDER_def)
qed
text \<open>
  Claim C7.  In a well-formed state whose loop runs, with the queue of the connection
  \<open>fd\<close> empty and its send thread idle: when \<open>recv\<close> on \<open>fd\<close> returns the bytes
  \<open>hello\r\n\<close> and the send thread then runs one iteration, \<open>send\<close> is called on \<open>fd\<close>
  with exactly the bytes \<open>hello:OK\r\n\<close>.
\<close>

theorem hello_roundtrip:
  assumes "server_ok s" and "running s" and "fd \<noteq> soc"
    and "front (g_queue s ! (fd mod MAXSENDER)) = last_ix (g_queue s ! (fd mod MAXSENDER))"
    and "cur s ! (fd mod MAXSENDER) = None"
    and "recv_ret sc = RecvOk (''hello'' @ [CR, LF])"
  shows "\<exists>s1. run soc [MainIter (WaitReady [(fd, sc)]), WorkerPop (fd mod MAXSENDER),
                        WorkerSend (fd mod MAXSENDER) True] s = Some s1
              \<and> sends s1 = sends s @ [(fd, ''hello:OK'' @ [CR, LF], True)]"
  using hello_roundtrip_h [of s fd soc sc] assms by (simp add: hello_def hello_ok_def)

theorem hello_roundtrip_witness:
  "server_ok accepted \<and> running accepted \<and> (4::nat) \<noteq> 3
    \<and> front (g_queue accepted ! (4 mod MAXSENDER)) = last_ix (g_queue accepted ! (4 mod MAXSENDER))
    \<and> cur accepted ! (4 mod MAXSENDER) = None
    \<and> recv_ret (rd (''hello'' @ [CR, LF])) = RecvOk (''hello'' @ [CR, LF])
    \<and> (\<exists>s1. run 3 [MainIter (WaitReady [(4, rd (''hello'' @ [CR, LF]))]), WorkerPop 0,
                    WorkerSend 0 True] accepted = Some s1
            \<and> sends s1 = [(4, ''hello:OK'' @ [CR, LF], True)])"
proof -
  have h: "server_ok accepted" "running accepted" "(4::nat) \<noteq> 3"
    "front (g_queue accepted ! (4 mod MAXSENDER)) = last_ix (g_queue accepted ! (4 mod MAXSENDER))"
    "cur accepted ! (4 mod MAXSENDER) = None"
    "recv_ret (rd (''hello'' @ [CR, LF])) = RecvOk (''hello'' @ [CR, LF])"
    by (simp_all add: accepted_simps(1,2) accepted_shard rd_def)
  have m: "4 mod MAXSENDER = 0" by (simp add: MAXSENDER_def)
  from hello_roundtrip [OF h] h show ?thesis by (simp add: m accepted_simps)
qed

section \<open>The ring queue as a first-in first-out queue\<close>

lemma mod_twice: "m < 2 * n \<Longrightarrow> m mod n = (if m < n then m else m - (n::nat))"
  by (simp add: le_mod_geq)

lemma ring_last: "f < n \<Longrightarrow> l < n \<Longrightarrow> (f + (l + n - f) mod n) mod n = (l::nat)"
  by (cases "f \<le> l") (auto simp add: mod_twice)

lemma ring_inj: "k < n \<Longrightarrow> k' < n \<Longrightarrow> f < n \<Longrightarrow> (f + k) mod n = (f + k') mod n \<Longrightarrow> k = (k'::nat)"
  by (simp add: mod_twice split: if_splits)

lemma ring_prev: "f < n \<Longrightarrow> ((f + 1) mod n + n - 1) mod n = (f::nat)"
  by (cases "f + 1 < n") (auto simp add: mod_twice)

lemma ring_occ_suc: "f < n \<Longrightarrow> l < n \<Longrightarrow> (l + n - f) mod n < n - 1 \<Longrightarrow>
   ((l + 1) mod n + n - f) mod n = (l + n - f) mod n + (1::nat)"
  by (cases "l + 1 < n"; cases "f \<le> l") (auto simp add: mod_twice split: if_splits)

lemma ring_occ_pred: "f < n \<Longrightarrow> l < n \<Longrightarrow> l \<noteq> f \<Longrightarrow>
   (l + n - (f + 1) mod n) mod n = (l + n - f) mod n - (1::nat)"
  by (cases "f + 1 < n"; cases "f \<le> l") (auto simp add: mod_twice split: if_splits)

lemma ring_occ_zero: "f < n \<Longrightarrow> l < n \<Longrightarrow> ((l + n - f) mod n = 0) = (l = (f::nat))"
  by (cases "f \<le> l") (auto simp add: mod_twice split: if_splits)

lemma last_ix_occupancy:
  "queue_ok q \<Longrightarrow> (front q + occupancy q) mod MAXQUEUESZ = last_ix q"
  by (simp add: queue_ok_def occupancy_def ring_last)

lemma occupancy_less: "occupancy q < MAXQUEUESZ"
  by (simp add: occupancy_def MAXQUEUESZ_def)

lemma pending_slot_neq_last:
  assumes q: "queue_ok q" and k: "k < occupancy q"
  shows "(front q + k) mod MAXQUEUESZ \<noteq> last_ix q"
proof
  assume "(front q + k) mod MAXQUEUESZ = last_ix q"
  then have "(front q + k) mod MAXQUEUESZ = (front q + occupancy q) mod MAXQUEUESZ"
    using last_ix_occupancy [OF q] by simp
  moreover have "k < MAXQUEUESZ" using k occupancy_less [of q] by simp
  ultimately have "k = occupancy q"
    using q occupancy_less [of q] by (intro ring_inj [of k MAXQUEUESZ _ "front q"]) (simp_all add: queue_ok_def)
  with k show False by simp
qed

lemma length_pending: "length (pending q) = occupancy q"
  by (simp add: pending_def)

lemma pending_data_update:
  assumes "\<And>k. k < occupancy q \<Longrightarrow> (front q + k) mod MAXQUEUESZ \<noteq> i"
  shows "pending (q\<lparr>data := (data q)[i := d]\<rparr>) = pending q"
proof -
  have "(data q)[i := d] ! ((front q + k) mod MAXQUEUESZ) = data q ! ((front q + k) mod MAXQUEUESZ)"
    if "k < occupancy q" for k
    using assms [OF that] by (simp add: nth_list_update_neq [OF not_sym])
  then show ?thesis by (simp add: pending_def occupancy_def)
qed

lemma pending_recv_queue: "queue_ok q \<Longrightarrow> pending (recv_queue fd r q) = pending q"
  unfolding recv_queue_def by (rule pending_data_update) (rule pending_slot_neq_last)

lemma occupancy_recv_queue: "occupancy (recv_queue fd r q) = occupancy q"
  by (simp add: occupancy_def recv_queue_def)

lemma occupancy_publish:
  "queue_ok q \<Longrightarrow> occupancy q < MAXQUEUESZ - 1 \<Longrightarrow> occupancy (publish q) = occupancy q + 1"
  unfolding occupancy_def publish_def QUEUE_NEXT_def
  by (simp add: queue_ok_def ring_occ_suc [of "front q" MAXQUEUESZ "last_ix q", simplified])

lemma pending_publish:
  assumes q: "queue_ok q" and o: "occupancy q < MAXQUEUESZ - 1"
  shows "pending (publish q) = pending q @ [data q ! last_ix q]"
proof -
  have "pending (publish q) =
      map (\<lambda>k. data q ! ((front q + k) mod MAXQUEUESZ)) [0..<occupancy q + 1]"
    using occupancy_publish [OF q o] by (simp add: pending_def publish_def)
  then show ?thesis
    using last_ix_occupancy [OF q] by (simp add: pending_def)
qed

lemma pending_enqueue:
  assumes q: "queue_ok q" and o: "occupancy q < MAXQUEUESZ - 1"
  shows "pending (enqueue fd bs q) = pending q @ [recv_slot fd (RecvOk bs) (data q ! last_ix q)]"
proof -
  let ?q1 = "recv_queue fd (RecvOk bs) q"
  have q1: "queue_ok ?q1" using q by (rule queue_ok_recv_queue)
  have o1: "occupancy ?q1 < MAXQUEUESZ - 1" using o by (simp add: occupancy_recv_queue)
  have "data ?q1 ! last_ix ?q1 = recv_slot fd (RecvOk bs) (data q ! last_ix q)"
    using q by (simp add: recv_queue_def queue_ok_def)
  then show ?thesis
    unfolding enqueue_def using pending_publish [OF q1 o1] pending_recv_queue [OF q] by simp
qed

lemma occupancy_enqueue:
  "queue_ok q \<Longrightarrow> occupancy q < MAXQUEUESZ - 1 \<Longrightarrow> occupancy (enqueue fd bs q) = occupancy q + 1"
  unfolding enqueue_def
  using occupancy_publish [of "recv_queue fd (RecvOk bs) q"]
  by (simp add: occupancy_recv_queue queue_ok_recv_queue)

lemma occupancy_zero: "queue_ok q \<Longrightarrow> (occupancy q = 0) = (last_ix q = front q)"
  by (simp add: occupancy_def queue_ok_def ring_occ_zero)

lemma dequeue_empty: "queue_ok q \<Longrightarrow> occupancy q = 0 \<Longrightarrow> dequeue q = None"
  by (simp add: dequeue_def occupancy_zero)

lemma dequeue_nonempty:
  assumes q: "queue_ok q" and o: "occupancy q \<noteq> 0"
  shows "dequeue q = Some (front q, q\<lparr>front := QUEUE_NEXT (front q)\<rparr>)"
    and "occupancy (q\<lparr>front := QUEUE_NEXT (front q)\<rparr>) = occupancy q - 1"
    and "pending q = data q ! front q # pending (q\<lparr>front := QUEUE_NEXT (front q)\<rparr>)"
proof -
  have ne: "last_ix q \<noteq> front q" using o occupancy_zero [OF q] by simp
  then show "dequeue q = Some (front q, q\<lparr>front := QUEUE_NEXT (front q)\<rparr>)"
    by (simp add: dequeue_def)
  show o1: "occupancy (q\<lparr>front := QUEUE_NEXT (front q)\<rparr>) = occupancy q - 1"
    using q ne unfolding occupancy_def QUEUE_NEXT_def
    by (simp add: queue_ok_def ring_occ_pred [of "front q" MAXQUEUESZ "last_ix q", simplified])
  have f: "front q < MAXQUEUESZ" using q by (simp add: queue_ok_def)
  have shift: "(QUEUE_NEXT (front q) + k) mod MAXQUEUESZ = (front q + Suc k) mod MAXQUEUESZ" for k
    unfolding QUEUE_NEXT_def by (simp add: mod_add_left_eq)
  have "[0..<occupancy q] = 0 # map Suc [0..<occupancy q - 1]"
    using o by (cases "occupancy q") (simp_all add: upt_conv_Cons map_Suc_upt del: upt_Suc)
  then have "pending q = data q ! (front q mod MAXQUEUESZ)
      # map (\<lambda>k. data q ! ((front q + Suc k) mod MAXQUEUESZ)) [0..<occupancy q - 1]"
    by (simp add: pending_def comp_def)
  then show "pending q = data q ! front q # pending (q\<lparr>front := QUEUE_NEXT (front q)\<rparr>)"
    using f by (simp add: pending_def o1 shift)
qed

lemma entry_recv_slot:
  "length (buf d) = BUFSZ \<Longrightarrow> entry (recv_slot fd (RecvOk bs) d) = (fd, take BUFSZ bs)"
  by (simp add: entry_def acc_recv_slot payload_recv_slot)

lemma enqueue_iterated:
  "queue_ok q \<Longrightarrow>
   queue_ok ((enqueue fd bs ^^ n) q) \<and> front ((enqueue fd bs ^^ n) q) = front q
   \<and> last_ix ((enqueue fd bs ^^ n) q) = (last_ix q + n) mod MAXQUEUESZ"
proof (induction n)
  case 0
  then show ?case by (simp add: queue_ok_def)
next
  case (Suc n)
  then show ?case
    by (simp add: queue_ok_enqueue)
      (simp add: enqueue_def publish_def recv_queue_def QUEUE_NEXT_def mod_Suc_eq)
qed

lemma queue_ok_zero: "queue_ok zero_queue"
  by (simp add: queue_ok_def zero_queue_def zero_data_def MAXQUEUESZ_def)

lemma occupancy_zero_queue: "occupancy zero_queue = 0"
  by (simp add: occupancy_def zero_queue_def)

lemma pending_zero_queue: "pending zero_queue = []"
  by (simp add: pending_def occupancy_zero_queue)

lemma held_slot_neq_last:
  assumes q: "queue_ok q" and r: "ring_inv q (Some i)"
  shows "i \<noteq> last_ix q" and "\<And>k. k < occupancy q \<Longrightarrow> (front q + k) mod MAXQUEUESZ \<noteq> i"
proof -
  have n: "MAXQUEUESZ - 1 < MAXQUEUESZ" by (simp add: MAXQUEUESZ_def)
  have "front q + MAXQUEUESZ - 1 = front q + (MAXQUEUESZ - 1)" by (simp add: MAXQUEUESZ_def)
  then have i: "i = (front q + (MAXQUEUESZ - 1)) mod MAXQUEUESZ" and o: "occupancy q < MAXQUEUESZ - 1"
    using r by (simp_all add: ring_inv_def)
  have f: "front q < MAXQUEUESZ" using q by (simp add: queue_ok_def)
  show "i \<noteq> last_ix q"
  proof
    assume "i = last_ix q"
    then have e: "(front q + (MAXQUEUESZ - 1)) mod MAXQUEUESZ = (front q + occupancy q) mod MAXQUEUESZ"
      using i last_ix_occupancy [OF q] by simp
    have "MAXQUEUESZ - 1 = occupancy q"
      using n occupancy_less f e by (rule ring_inj)
    with o show False by simp
  qed
  show "(front q + k) mod MAXQUEUESZ \<noteq> i" if k: "k < occupancy q" for k
  proof
    assume "(front q + k) mod MAXQUEUESZ = i"
    then have e: "(front q + k) mod MAXQUEUESZ = (front q + (MAXQUEUESZ - 1)) mod MAXQUEUESZ"
      using i by simp
    have kn: "k < MAXQUEUESZ" using k occupancy_less [of q] by simp
    have "k = MAXQUEUESZ - 1"
      using kn n f e by (rule ring_inj)
    with k o show False by simp
  qed
qed

lemma front_recv_queue: "front (recv_queue fd r q) = front q"
  by (simp add: recv_queue_def)

lemma in_hand_recv_queue:
  assumes "queue_ok q" and "ring_inv q c"
  shows "in_hand (recv_queue fd r q) c = in_hand q c"
proof (cases c)
  case None
  then show ?thesis by (simp add: in_hand_def)
next
  case (Some i)
  with assms have "i \<noteq> last_ix q" by (simp add: held_slot_neq_last(1))
  then have "(data q)[last_ix q := recv_slot fd r (data q ! last_ix q)] ! i = data q ! i"
    by (simp add: nth_list_update_neq [OF not_sym])
  with Some show ?thesis by (simp add: in_hand_def recv_queue_def)
qed

lemma ring_inv_recv_queue: "ring_inv (recv_queue fd r q) c = ring_inv q c"
  by (cases c) (simp_all add: ring_inv_def occupancy_recv_queue front_recv_queue)


lemma front_enqueue: "front (enqueue fd bs q) = front q"
  by (simp add: enqueue_def publish_def recv_queue_def)

lemma ring_inv_enqueue:
  assumes q: "queue_ok q" and r: "ring_inv q c"
    and o: "occupancy q + (case c of None \<Rightarrow> 0 | Some i \<Rightarrow> 1) < MAXQUEUESZ - 1"
  shows "ring_inv (enqueue fd bs q) c"
proof (cases c)
  case None
  then show ?thesis by (simp add: ring_inv_def)
next
  case (Some i)
  with o have o1: "occupancy q + 1 < MAXQUEUESZ - 1" by simp
  then have "occupancy q < MAXQUEUESZ - 1" by simp
  from occupancy_enqueue [OF q this] have "occupancy (enqueue fd bs q) = occupancy q + 1" .
  with o1 r Some show ?thesis
    by (simp add: ring_inv_def front_enqueue)
qed

lemma recv_step_data:
  assumes "queue_ok q" and "bs \<noteq> []"
  shows "recv_step fd (RecvOk bs) q = enqueue fd bs q"
proof -
  have l: "last_ix q < length (data q)" using assms(1) by (simp add: queue_ok_def)
  have n: "len (data (recv_queue fd (RecvOk bs) q) ! last_ix (recv_queue fd (RecvOk bs) q))
      = int (min (length bs) BUFSZ)"
    using l by (simp add: recv_queue_def len_recv_slot)
  have m: "min (length bs) BUFSZ \<noteq> 0" using assms(2) by (simp add: BUFSZ_def)
  have c: "\<not> (int (min (length bs) BUFSZ) = - 1 \<or> int (min (length bs) BUFSZ) = 0)"
    using m by simp
  show ?thesis unfolding recv_step_def enqueue_def Let_def n by (simp only: c if_False)
qed

lemma recv_step_nodata:
  assumes "queue_ok q" and "received fd r = []"
  shows "recv_step fd r q = recv_queue fd r q"
proof -
  have l: "last_ix q < length (data q)" using assms(1) by (simp add: queue_ok_def)
  have "len (recv_slot fd r d) = - 1 \<or> len (recv_slot fd r d) = 0" for d
    using assms(2) by (cases r) (simp_all add: received_def recv_slot_def Let_def split: if_splits)
  then show ?thesis using l by (simp add: recv_step_def recv_queue_def Let_def)
qed

lemma in_hand_enqueue:
  assumes "queue_ok q" and "ring_inv q c"
  shows "in_hand (enqueue fd bs q) c = in_hand q c"
  using in_hand_recv_queue [OF assms, of fd "RecvOk bs"]
  by (simp add: in_hand_def enqueue_def publish_def split: option.splits)

lemma sized_recv_queue:
  "queue_ok q \<Longrightarrow> ring_inv q c \<Longrightarrow> sized (recv_queue fd r q) c = sized q c"
  by (simp add: sized_def in_hand_recv_queue pending_recv_queue)

lemma sized_enqueue:
  assumes q: "queue_ok q" and r: "ring_inv q c" and o: "occupancy q < MAXQUEUESZ - 1"
    and s: "sized q c" and b: "length bs < BUFSZ"
  shows "sized (enqueue fd bs q) c"
  using s b by (auto simp: sized_def in_hand_enqueue [OF q r] pending_enqueue [OF q o] len_recv_slot)

lemma ring_refines_fifo:
  "queue_ok q \<Longrightarrow> ring_inv q c \<Longrightarrow> sized q c \<Longrightarrow> fits ops (occupancy q) (c \<noteq> None) \<Longrightarrow>
   ring_run ops q c
     = Some (fifo_run ops (map entry (pending q)) (map_option (\<lambda>i. entry (data q ! i)) c))"
proof (induction ops arbitrary: q c)
  case Nil
  show ?case by simp
next
  case (Cons op ops)
  note q = Cons.prems(1) and r = Cons.prems(2) and z = Cons.prems(3) and f = Cons.prems(4)
  show ?case
  proof (cases op)
    case (Recv fd res)
    show ?thesis
    proof (cases "received fd res = []")
      case True
      have st: "recv_step fd res q = recv_queue fd res q" by (rule recv_step_nodata [OF q True])
      have h: "map_option (\<lambda>i. entry (data (recv_queue fd res q) ! i)) c
             = map_option (\<lambda>i. entry (data q ! i)) c"
        using in_hand_recv_queue [OF q r, of fd res] by (cases c) (simp_all add: in_hand_def)
      have "ring_run ops (recv_queue fd res q) c
          = Some (fifo_run ops (map entry (pending (recv_queue fd res q)))
              (map_option (\<lambda>i. entry (data (recv_queue fd res q) ! i)) c))"
        using q r z f True Recv
        by (intro Cons.IH)
          (simp_all add: queue_ok_recv_queue ring_inv_recv_queue sized_recv_queue
            occupancy_recv_queue)
      then show ?thesis using True Recv st h q by (simp add: pending_recv_queue)
    next
      case False
      then obtain bs where res: "res = RecvOk bs" and bs: "bs \<noteq> []"
        by (cases res) (auto simp: received_def split: if_splits)
      from f Recv False res have o: "occupancy q + (if c \<noteq> None then 1 else 0) < MAXQUEUESZ - 1"
        and b: "length bs < BUFSZ" and f': "fits ops (occupancy q + 1) (c \<noteq> None)"
        by simp_all
      from o have o1: "occupancy q < MAXQUEUESZ - 1"
        and o2: "occupancy q + (case c of None \<Rightarrow> 0 | Some i \<Rightarrow> 1) < MAXQUEUESZ - 1"
        by (simp_all split: if_splits option.splits)
      have st: "recv_step fd res q = enqueue fd bs q" unfolding res by (rule recv_step_data [OF q bs])
      have h: "map_option (\<lambda>i. entry (data (enqueue fd bs q) ! i)) c
             = map_option (\<lambda>i. entry (data q ! i)) c"
        using in_hand_enqueue [OF q r, of fd bs] by (cases c) (simp_all add: in_hand_def)
      have lb: "length (buf (data q ! last_ix q)) = BUFSZ"
        using q by (intro queue_ok_buf) (simp_all add: queue_ok_def)
      have "ring_run ops (enqueue fd bs q) c
          = Some (fifo_run ops (map entry (pending (enqueue fd bs q)))
              (map_option (\<lambda>i. entry (data (enqueue fd bs q) ! i)) c))"
        using f'
        by (intro Cons.IH queue_ok_enqueue [OF q] ring_inv_enqueue [OF q r o2]
            sized_enqueue [OF q r o1 z b])
          (simp add: occupancy_enqueue [OF q o1])
      then show ?thesis
        using Recv st h res bs
        by (simp add: pending_enqueue [OF q o1] entry_recv_slot [OF lb] received_def)
    qed
  next
    case Pop
    show ?thesis
    proof (cases c)
      case (Some i)
      have "ring_run ops q c
          = Some (fifo_run ops (map entry (pending q)) (map_option (\<lambda>i. entry (data q ! i)) c))"
        using q r z f Pop Some by (intro Cons.IH) simp_all
      then show ?thesis using Pop Some by simp
    next
      case None
      show ?thesis
      proof (cases "occupancy q = 0")
        case True
        have p: "pending q = []" using True by (simp add: pending_def)
        have "ring_run ops q None
          = Some (fifo_run ops (map entry (pending q)) (map_option (\<lambda>i. entry (data q ! i)) None))"
          using q z f Pop None True by (intro Cons.IH) (simp_all add: ring_inv_def)
        then show ?thesis using Pop None p dequeue_empty [OF q True] by simp
      next
        case False
        define q1 where "q1 = q\<lparr>front := QUEUE_NEXT (front q)\<rparr>"
        note dq = dequeue_nonempty [OF q False, folded q1_def]
        have q1: "queue_ok q1" using queue_ok_dequeue [OF q dq(1)] by simp
        have fr: "front q < MAXQUEUESZ" using q by (simp add: queue_ok_def)
        have r1: "ring_inv q1 (Some (front q))"
        proof -
          have "(QUEUE_NEXT (front q) + MAXQUEUESZ - 1) mod MAXQUEUESZ = front q"
            using ring_prev [OF fr] by (simp add: QUEUE_NEXT_def)
          moreover have "occupancy q1 < MAXQUEUESZ - 1"
            using dq(2) occupancy_less [of q] False by simp
          ultimately show ?thesis by (simp add: ring_inv_def q1_def)
        qed
        have z1: "sized q1 (Some (front q))"
          using z None dq(3) by (simp add: sized_def in_hand_def q1_def)
        have "ring_run ops q1 (Some (front q))
          = Some (fifo_run ops (map entry (pending q1))
               (map_option (\<lambda>i. entry (data q1 ! i)) (Some (front q))))"
          using f Pop None False by (intro Cons.IH q1 r1 z1) (simp add: dq(2))
        then show ?thesis using Pop None dq(1) dq(3) by (simp add: q1_def)
      qed
    qed
  next
    case Work
    show ?thesis
    proof (cases c)
      case None
      have "ring_run ops q None
          = Some (fifo_run ops (map entry (pending q)) (map_option (\<lambda>i. entry (data q ! i)) None))"
        using q z f Work None by (intro Cons.IH) (simp_all add: ring_inv_def)
      then show ?thesis using Work None by simp
    next
      case (Some i)
      define d where "d = data q ! i"
      have i: "i < MAXQUEUESZ" using r Some by (simp add: ring_inv_def MAXQUEUESZ_def)
      have lb: "length (buf d) = BUFSZ" unfolding d_def by (rule queue_ok_buf [OF q i])
      have ld: "0 \<le> len d" "nat (len d) < length (buf d)"
        using z Some lb by (simp_all add: sized_def in_hand_def d_def)
      from respond_send [OF ld lb] obtain d1 where
        rs: "respond d = Some (strip (payload d), d1)" and l1: "length (buf d1) = BUFSZ"
        by blast
      define q1 where "q1 = q\<lparr>data := (data q)[i := d1]\<rparr>"
      have q1: "queue_ok q1" unfolding q1_def by (rule queue_ok_data_update [OF q l1])
      have p1: "pending q1 = pending q"
        unfolding q1_def
        by (rule pending_data_update) (rule held_slot_neq_last(2) [OF q r [unfolded Some]])
      have o1: "occupancy q1 = occupancy q" by (simp add: q1_def occupancy_def)
      have z1: "sized q1 None" using z by (simp add: sized_def in_hand_def p1)
      have "ring_run ops q1 None
          = Some (fifo_run ops (map entry (pending q1)) (map_option (\<lambda>i. entry (data q1 ! i)) None))"
        using f Work by (intro Cons.IH q1 z1) (simp_all add: ring_inv_def o1)
      then show ?thesis using Work Some rs by (simp add: p1 d_def [symmetric] q1_def [symmetric])
    qed
  qed
qed


lemma recv_step_iterated:
  "queue_ok q \<Longrightarrow> bs \<noteq> [] \<Longrightarrow>
   (recv_step fd (RecvOk bs) ^^ n) q = (enqueue fd bs ^^ n) q"
proof (induction n)
  case 0
  show ?case by simp
next
  case (Suc n)
  have "queue_ok ((enqueue fd bs ^^ n) q)" using enqueue_iterated [OF Suc.prems(1)] by simp
  then show ?case using Suc by (simp add: recv_step_data)
qed

lemma ring_run_replicate:
  "ring_run (replicate n (Recv fd r) @ ops) q c = ring_run ops ((recv_step fd r ^^ n) q) c"
  by (induction n arbitrary: q) (simp_all add: funpow_swap1)

lemma fifo_run_replicate:
  "bs \<noteq> [] \<Longrightarrow>
   fifo_run (replicate n (Recv fd (RecvOk bs)) @ ops) xs h
     = fifo_run ops (xs @ replicate n (fd, take BUFSZ bs)) h"
  by (induction n arbitrary: xs) (simp_all add: received_def replicate_app_Cons_same)

text \<open>
  Claim C1, as the code has it.  The queue of a shard and its send thread behave as a
  first-in first-out queue that loses nothing, in every run in which each read that
  returns data returns fewer than \<open>sizeof(buf)\<close> bytes and finds fewer than
  \<open>MAXQUEUESZ - 1\<close> entries in flight, that is pending in the queue or in the hand of
  the send thread: every iteration of the send thread completes, and the entry it
  reads, outside the mutex, is the oldest entry enqueued and not yet processed, with
  the descriptor and the bytes that were enqueued.  Reads that return 0 or \<open>-1\<close> store
  into slot \<open>last\<close> all the same; within the bound that slot is neither pending nor in
  hand.
\<close>

theorem ring_queue_fifo:
  assumes "queue_ok q" and "ring_inv q c" and "sized q c"
    and "fits ops (occupancy q) (c \<noteq> None)"
  shows "ring_run ops q c
     = Some (fifo_run ops (map entry (pending q)) (map_option (\<lambda>i. entry (data q ! i)) c))"
  using assms by (rule ring_refines_fifo)

theorem ring_queue_fifo_witness:
  "queue_ok zero_queue \<and> ring_inv zero_queue None \<and> sized zero_queue None
   \<and> fits [Recv 4 (RecvOk ''ab''), Recv 6 (RecvOk ''cd''), Pop, Recv 4 (RecvOk []),
         Recv 6 (RecvErr False), Work, Pop, Work, Pop] (occupancy zero_queue) (None \<noteq> (None :: nat option))
   \<and> ring_run [Recv 4 (RecvOk ''ab''), Recv 6 (RecvOk ''cd''), Pop, Recv 4 (RecvOk []),
         Recv 6 (RecvErr False), Work, Pop, Work, Pop] zero_queue None
       = Some [(4, ''ab''), (6, ''cd'')]"
proof -
  have z: "sized zero_queue None" by (simp add: sized_def in_hand_def pending_zero_queue)
  have r: "ring_inv zero_queue None" by (simp add: ring_inv_def)
  have f: "fits [Recv 4 (RecvOk ''ab''), Recv 6 (RecvOk ''cd''), Pop, Recv 4 (RecvOk []),
         Recv 6 (RecvErr False), Work, Pop, Work, Pop] (occupancy zero_queue) (None \<noteq> (None :: nat option))"
    by (simp add: occupancy_zero_queue received_def MAXQUEUESZ_def BUFSZ_def)
  show ?thesis
    using ring_queue_fifo [OF queue_ok_zero r z f] z r f
    by (simp add: queue_ok_zero pending_zero_queue received_def BUFSZ_def)
qed

lemma hand_overwrite_h:
  "ring_run (Recv 4 (RecvOk ''a'') # Pop # replicate 4095 (Recv 4 (RecvOk ''a''))
       @ [Recv 4 (RecvOk []), Work]) zero_queue None = Some [(4, [])]
   \<and> fifo_run (Recv 4 (RecvOk ''a'') # Pop # replicate 4095 (Recv 4 (RecvOk ''a''))
       @ [Recv 4 (RecvOk []), Work]) [] None = [(4, ''a'')]"
proof -
  define q0 where "q0 = enqueue 4 ''a'' zero_queue"
  have q0: "queue_ok q0" "front q0 = 0" "last_ix q0 = 1"
    using queue_ok_enqueue [OF queue_ok_zero, of 4 "''a''"]
    by (simp_all add: q0_def enqueue_def publish_def recv_queue_def zero_queue_def QUEUE_NEXT_def
        MAXQUEUESZ_def)
  define q1 where "q1 = q0\<lparr>front := QUEUE_NEXT (front q0)\<rparr>"
  have dq: "dequeue q0 = Some (0, q1)" using q0 by (simp add: dequeue_def q1_def)
  have q1: "queue_ok q1" "front q1 = 1" "last_ix q1 = 1"
    using queue_ok_dequeue [OF q0(1) dq] q0
    by (simp_all add: q1_def QUEUE_NEXT_def MAXQUEUESZ_def)
  define q2 where "q2 = (enqueue 4 ''a'' ^^ 4095) q1"
  have q2: "queue_ok q2" "front q2 = 1" "last_ix q2 = 0"
    using enqueue_iterated [OF q1(1), where fd = 4 and bs = "''a''" and n = 4095]
    by (simp_all add: q2_def q1 MAXQUEUESZ_def)
  have it: "(recv_step 4 (RecvOk ''a'') ^^ 4095) q1 = q2"
    unfolding q2_def by (rule recv_step_iterated [OF q1(1)]) simp
  define d where "d = recv_slot 4 (RecvOk []) (data q2 ! 0)"
  define q3 where "q3 = recv_queue 4 (RecvOk []) q2"
  have st: "recv_step 4 (RecvOk []) q2 = q3"
    unfolding q3_def by (rule recv_step_nodata [OF q2(1)]) (simp add: received_def)
  have l0: "length (buf (data q2 ! 0)) = BUFSZ"
    by (rule queue_ok_buf [OF q2(1)]) (simp add: MAXQUEUESZ_def)
  have d3: "data q3 ! 0 = d"
    using q2 by (simp add: q3_def recv_queue_def d_def queue_ok_def MAXQUEUESZ_def)
  have en: "entry d = (4, [])"
    by (simp add: d_def entry_def payload_def recv_slot_def)
  have ld: "0 \<le> len d" "nat (len d) < length (buf d)" "length (buf d) = BUFSZ"
    using l0 by (simp_all add: d_def len_recv_slot buf_len_recv_slot BUFSZ_def)
  from respond_send [OF ld] obtain d1 where rs: "respond d = Some (strip (payload d), d1)"
    by blast
  have "ring_run (Recv 4 (RecvOk ''a'') # Pop # replicate 4095 (Recv 4 (RecvOk ''a''))
       @ [Recv 4 (RecvOk []), Work]) zero_queue None
      = ring_run (replicate 4095 (Recv 4 (RecvOk ''a'')) @ [Recv 4 (RecvOk []), Work]) q1 (Some 0)"
    using dq by (simp add: recv_step_data [OF queue_ok_zero] q0_def [symmetric])
  also have "\<dots> = ring_run [Recv 4 (RecvOk []), Work] q2 (Some 0)"
    by (simp only: ring_run_replicate it)
  also have "\<dots> = Some [(4, [])]"
    using rs en d3 by (simp add: st)
  finally have a: "ring_run (Recv 4 (RecvOk ''a'') # Pop # replicate 4095 (Recv 4 (RecvOk ''a''))
       @ [Recv 4 (RecvOk []), Work]) zero_queue None = Some [(4, [])]" .
  have "fifo_run (Recv 4 (RecvOk ''a'') # Pop # replicate 4095 (Recv 4 (RecvOk ''a''))
       @ [Recv 4 (RecvOk []), Work]) [] None
      = fifo_run (replicate 4095 (Recv 4 (RecvOk ''a'')) @ [Recv 4 (RecvOk []), Work])
          [] (Some (4, ''a''))"
    by (simp add: received_def BUFSZ_def)
  also have "\<dots> = [(4, ''a'')]"
    by (simp add: fifo_run_replicate received_def)
  finally show ?thesis using a by simp
qed

text \<open>
  Claim C1 as stated fails: the producer has no test for a full queue.  After 4096
  requests \<open>a\<close> on descriptor 4 with no send thread running, \<open>last\<close> is back on \<open>front\<close>;
  the next request, \<open>b\<close>, is stored over the oldest entry, the 4095 others are no
  longer seen, and the send thread reads \<open>b\<close> where a first-in first-out queue gives
  the first \<open>a\<close>.  And with one entry in the hand of the send thread and 4095 pending,
  \<open>last\<close> is the slot in hand: a read that returns 0 is stored there, and the thread
  reads an empty entry where the queue gives \<open>a\<close>.
\<close>

theorem ring_overwrite_counterexample:
  "ring_run (replicate 4096 (Recv 4 (RecvOk ''a'')) @ [Recv 4 (RecvOk ''b''), Pop, Work])
       zero_queue None = Some [(4, ''b'')]
   \<and> fifo_run (replicate 4096 (Recv 4 (RecvOk ''a'')) @ [Recv 4 (RecvOk ''b''), Pop, Work])
       [] None = [(4, ''a'')]
   \<and> ring_run (Recv 4 (RecvOk ''a'') # Pop # replicate 4095 (Recv 4 (RecvOk ''a''))
       @ [Recv 4 (RecvOk []), Work]) zero_queue None = Some [(4, [])]
   \<and> fifo_run (Recv 4 (RecvOk ''a'') # Pop # replicate 4095 (Recv 4 (RecvOk ''a''))
       @ [Recv 4 (RecvOk []), Work]) [] None = [(4, ''a'')]"
proof -
  define q1 where "q1 = (enqueue 4 ''a'' ^^ 4096) zero_queue"
  have e: "queue_ok q1" "front q1 = 0" "last_ix q1 = 0"
    using enqueue_iterated [OF queue_ok_zero, where fd = 4 and bs = "''a''" and n = 4096]
    by (simp_all add: q1_def zero_queue_def MAXQUEUESZ_def)
  have it: "(recv_step 4 (RecvOk ''a'') ^^ 4096) zero_queue = q1"
    unfolding q1_def by (rule recv_step_iterated [OF queue_ok_zero]) simp
  define d where "d = recv_slot 4 (RecvOk ''b'') (data q1 ! 0)"
  define q2 where "q2 = enqueue 4 ''b'' q1"
  have l0: "length (buf (data q1 ! 0)) = BUFSZ"
    by (rule queue_ok_buf [OF e(1)]) (simp add: MAXQUEUESZ_def)
  have q2: "front q2 = 0" "last_ix q2 = 1" "data q2 ! 0 = d"
    using e by (simp_all add: q2_def enqueue_def publish_def recv_queue_def QUEUE_NEXT_def
        MAXQUEUESZ_def d_def queue_ok_def)
  have dq: "dequeue q2 = Some (0, q2\<lparr>front := QUEUE_NEXT 0\<rparr>)"
    using q2 by (simp add: dequeue_def)
  have en: "entry d = (4, ''b'')"
    unfolding d_def using entry_recv_slot [OF l0, of 4 "''b''"] by (simp add: BUFSZ_def)
  have ld: "0 \<le> len d" "nat (len d) < length (buf d)" "length (buf d) = BUFSZ"
    using l0 by (simp_all add: d_def len_recv_slot buf_len_recv_slot BUFSZ_def)
  from respond_send [OF ld] obtain d1 where rs: "respond d = Some (strip (payload d), d1)"
    by blast
  have "ring_run (replicate 4096 (Recv 4 (RecvOk ''a'')) @ [Recv 4 (RecvOk ''b''), Pop, Work])
       zero_queue None = ring_run [Recv 4 (RecvOk ''b''), Pop, Work] q1 None"
    by (simp only: ring_run_replicate it)
  also have "\<dots> = Some [(4, ''b'')]"
    using dq q2 rs en by (simp add: recv_step_data [OF e(1)] q2_def [symmetric])
  finally have a: "ring_run (replicate 4096 (Recv 4 (RecvOk ''a'')) @ [Recv 4 (RecvOk ''b''), Pop, Work])
       zero_queue None = Some [(4, ''b'')]" .
  have b: "fifo_run (replicate 4096 (Recv 4 (RecvOk ''a'')) @ [Recv 4 (RecvOk ''b''), Pop, Work])
       [] None = [(4, ''a'')]"
  proof -
    have "replicate 4096 (4::nat, ''a'') = (4, ''a'') # replicate 4095 (4, ''a'')"
      by (simp add: replicate_Suc [symmetric] del: replicate_Suc)
    then show ?thesis by (simp add: fifo_run_replicate received_def BUFSZ_def)
  qed
  show ?thesis using a b hand_overwrite_h by simp
qed

section \<open>The order of the responses on a connection\<close>


























































end
